theory Spec2Isabelle
  imports Complex_Main "HOL-Library.Word"
begin

section \<open>Number extractor (services/ocrService: extractIndianNumbers)\<close>

text \<open>
  The source scans the text with the regular expression
  \<^verbatim>\<open>/(?:(?:\+91|91|0)?[ -]?)?([6-9]\d{9})\b/g\<close>
  through \<^verbatim>\<open>text.matchAll\<close>, adds \<^verbatim>\<open>`91${match[1]}`\<close> to a \<^verbatim>\<open>Set\<close> for
  every match, and returns \<^verbatim>\<open>Array.from(results)\<close>.

  A text is a list of characters. The expression only tells ASCII characters apart
  (every other code unit is neither a digit nor a word character), so a byte string
  stands for the JavaScript string.
\<close>

subsection \<open>Character classes\<close>

definition is_digit :: "char \<Rightarrow> bool" where
  \<comment> \<open>\<^verbatim>\<open>\d\<close>\<close>
  "is_digit c = (c \<in> set ''0123456789'')"

definition is_6to9 :: "char \<Rightarrow> bool" where
  \<comment> \<open>\<^verbatim>\<open>[6-9]\<close>\<close>
  "is_6to9 c = (c \<in> set ''6789'')"

definition is_word_char :: "char \<Rightarrow> bool" where
  \<comment> \<open>\<^verbatim>\<open>\w\<close>, the class that \<^verbatim>\<open>\b\<close> is defined by: \<^verbatim>\<open>[A-Za-z0-9_]\<close>\<close>
  "is_word_char c =
     (c \<in> set ''0123456789abcdefghijklmnopqrstuvwxyzABCDEFGHIJKLMNOPQRSTUVWXYZ_'')"

definition is_sep :: "char \<Rightarrow> bool" where
  \<comment> \<open>\<^verbatim>\<open>[ -]\<close>\<close>
  "is_sep c = (c = CHR '' '' \<or> c = CHR ''-'')"

subsection \<open>The expression, tried at one position\<close>

definition word_boundary :: "string \<Rightarrow> bool" where
  \<comment> \<open>\<^verbatim>\<open>\b\<close> right after a digit: the rest of the text is empty or starts with a
      character that is not a word character\<close>
  "word_boundary rest = (case rest of [] \<Rightarrow> True | c # _ \<Rightarrow> \<not> is_word_char c)"

definition is_run :: "string \<Rightarrow> bool" where
  \<comment> \<open>\<^verbatim>\<open>[6-9]\d{9}\<close>\<close>
  "is_run g = (length g = 10 \<and> is_6to9 (hd g) \<and> list_all is_digit (tl g))"

definition capture :: "string \<Rightarrow> string option" where
  \<comment> \<open>\<^verbatim>\<open>([6-9]\d{9})\b\<close> at the head of \<open>t\<close>: the captured group\<close>
  "capture t =
     (let g = take 10 t
      in if is_run g \<and> word_boundary (drop 10 t) then Some g else None)"

definition sep_capture :: "string \<Rightarrow> (nat \<times> string) option" where
  \<comment> \<open>\<^verbatim>\<open>[ -]?\<close> (greedy: first with the separator, then without) followed by the
      group; the result is the number of characters before the group, and the group\<close>
  "sep_capture t =
     (case t of
        [] \<Rightarrow> None
      | c # cs \<Rightarrow>
          (if is_sep c
           then (case capture cs of
                   Some g \<Rightarrow> Some (1, g)
                 | None \<Rightarrow> map_option (Pair 0) (capture t))
           else map_option (Pair 0) (capture t)))"

definition try_prefix :: "string \<Rightarrow> string \<Rightarrow> (nat \<times> string) option" where
  \<comment> \<open>one literal alternative of \<^verbatim>\<open>(?:\+91|91|0)\<close>, then the rest of the expression\<close>
  "try_prefix p t =
     (if take (length p) t = p
      then map_option (\<lambda>(k, g). (length p + k, g)) (sep_capture (drop (length p) t))
      else None)"

fun first_some :: "'a option list \<Rightarrow> 'a option" where
  "first_some [] = None"
| "first_some (None # xs) = first_some xs"
| "first_some (Some x # xs) = Some x"

definition match_at :: "string \<Rightarrow> (nat \<times> string) option" where
  \<comment> \<open>the whole expression at the head of \<open>t\<close>, alternatives in backtracking order:
      the literal prefixes in the order written, then no prefix, then the outer
      optional group skipped. The result is the length of the match and group 1.\<close>
  "match_at t =
     map_option (\<lambda>(k, g). (k + 10, g))
       (first_some
          [try_prefix ''+91'' t, try_prefix ''91'' t, try_prefix ''0'' t,
           sep_capture t, map_option (Pair 0) (capture t)])"

lemma capture_length: "capture t = Some g \<Longrightarrow> length g = 10 \<and> 10 \<le> length t"
  by (auto simp: capture_def is_run_def Let_def split: if_splits)

lemma sep_capture_bounds:
  "sep_capture t = Some (k, g) \<Longrightarrow> k \<le> 1 \<and> k + 10 \<le> length t \<and> capture (drop k t) = Some g"
  by (cases t) (auto simp: sep_capture_def dest: capture_length split: if_splits option.splits)

lemma try_prefix_bounds:
  "try_prefix p t = Some (k, g) \<Longrightarrow>
     k \<le> length p + 1 \<and> k + 10 \<le> length t \<and> capture (drop k t) = Some g"
proof -
  assume a: "try_prefix p t = Some (k, g)"
  then obtain j where p: "take (length p) t = p"
    and s: "sep_capture (drop (length p) t) = Some (j, g)" and k: "k = length p + j"
    by (auto simp: try_prefix_def split: if_splits)
  from p have "length (take (length p) t) = length p" by simp
  then have "length p \<le> length t" by simp
  with sep_capture_bounds [OF s] k show ?thesis
    by (auto simp: add.commute)
qed

lemma first_some_cases:
  "first_some [a, b, c, d, e] = Some x \<Longrightarrow>
     a = Some x \<or> b = Some x \<or> c = Some x \<or> d = Some x \<or> e = Some x"
  by (cases a; cases b; cases c; cases d; cases e) simp_all

lemma match_at_bounds:
  "match_at t = Some (n, g) \<Longrightarrow>
     10 \<le> n \<and> n \<le> 14 \<and> n \<le> length t \<and> capture (drop (n - 10) t) = Some g"
proof -
  assume a: "match_at t = Some (n, g)"
  then obtain k where f: "first_some
          [try_prefix ''+91'' t, try_prefix ''91'' t, try_prefix ''0'' t,
           sep_capture t, map_option (Pair 0) (capture t)] = Some (k, g)"
    and n: "n = k + 10"
    by (auto simp: match_at_def)
  from first_some_cases [OF f]
  consider "try_prefix ''+91'' t = Some (k, g)" | "try_prefix ''91'' t = Some (k, g)"
    | "try_prefix ''0'' t = Some (k, g)" | "sep_capture t = Some (k, g)"
    | "map_option (Pair 0) (capture t) = Some (k, g)"
    by blast
  then have "k \<le> 4 \<and> k + 10 \<le> length t \<and> capture (drop k t) = Some g"
  proof cases
    case 1
    from try_prefix_bounds [OF this] show ?thesis by simp
  next
    case 2
    from try_prefix_bounds [OF this] show ?thesis by simp
  next
    case 3
    from try_prefix_bounds [OF this] show ?thesis by simp
  next
    case 4
    from sep_capture_bounds [OF this] show ?thesis by simp
  next
    case 5
    then have "k = 0" and "capture t = Some g" by auto
    with capture_length [of t g] show ?thesis by simp
  qed
  with n show ?thesis by simp
qed

subsection \<open>Global matching and the result set\<close>

function matchAll :: "string \<Rightarrow> string list" where
  \<comment> \<open>\<^verbatim>\<open>text.matchAll(regex)\<close>, as the list of the groups 1: the expression is tried
      at the current position; a match moves the position to its end, a failure
      moves it one character on; the scan ends behind the last character\<close>
  "matchAll t =
     (case match_at t of
        Some (n, g) \<Rightarrow> g # matchAll (drop n t)
      | None \<Rightarrow> (case t of [] \<Rightarrow> [] | _ # cs \<Rightarrow> matchAll cs))"
  by pat_completeness auto
termination
proof (relation "measure length")
  show "wf (measure length)" by simp
next
  fix t :: string and x2 :: "nat \<times> string" and n :: nat and g :: string
  assume "match_at t = Some x2" and "(n, g) = x2"
  then have "match_at t = Some (n, g)" by simp
  from match_at_bounds [OF this] have "10 \<le> n" and "n \<le> length t"
    by simp_all
  then show "(drop n t, t) \<in> measure length"
    by simp
next
  fix t :: string and a :: char and cs :: string
  assume "t = a # cs"
  then show "(cs, t) \<in> measure length" by simp
qed

declare matchAll.simps [simp del]

definition set_add :: "'a list \<Rightarrow> 'a \<Rightarrow> 'a list" where
  \<comment> \<open>\<^verbatim>\<open>Set.prototype.add\<close> on a set kept in insertion order\<close>
  "set_add s x = (if x \<in> set s then s else s @ [x])"

definition extractIndianNumbers :: "string \<Rightarrow> string list" where
  "extractIndianNumbers text =
     foldl (\<lambda>results g. if g \<noteq> [] then set_add results (''91'' @ g) else results)
       [] (matchAll text)"

subsection \<open>Facts about one position\<close>

lemma is_digit_word: "is_digit c \<Longrightarrow> is_word_char c"
  by (auto simp: is_digit_def is_word_char_def)

lemma is_6to9_digit: "is_6to9 c \<Longrightarrow> is_digit c"
  by (auto simp: is_digit_def is_6to9_def)

lemma is_sep_not_digit: "is_sep c \<Longrightarrow> \<not> is_digit c"
  by (auto simp: is_digit_def is_sep_def)

lemma is_run_digits: "is_run g \<Longrightarrow> k < 10 \<Longrightarrow> is_digit (g ! k)"
proof -
  assume r: "is_run g" and k: "k < 10"
  then obtain c cs where g: "g = c # cs" by (cases g) (auto simp: is_run_def)
  with r have c: "is_6to9 c" and cs: "list_all is_digit cs" and l: "length cs = 9"
    by (auto simp: is_run_def)
  show ?thesis
  proof (cases k)
    case 0
    with g c show ?thesis by (simp add: is_6to9_digit)
  next
    case (Suc m)
    with k l have "m < length cs" by simp
    with cs have "is_digit (cs ! m)" by (simp add: list_all_length)
    with g Suc show ?thesis by simp
  qed
qed

lemma capture_Some:
  "capture t = Some g \<longleftrightarrow> g = take 10 t \<and> is_run g \<and> word_boundary (drop 10 t)"
  by (auto simp: capture_def Let_def)

lemma capture_digit:
  assumes "capture t = Some g" and "k < 10"
  shows "is_digit (t ! k)"
proof -
  from assms have r: "is_run (take 10 t)" by (auto simp: capture_Some)
  from is_run_digits [OF r assms(2)] assms(2) show ?thesis by simp
qed

lemma capture_boundary:
  assumes "capture t = Some g" and "10 < length t"
  shows "\<not> is_word_char (t ! 10)"
proof -
  from assms(2) have "drop 10 t \<noteq> []" and "hd (drop 10 t) = t ! 10"
    by (simp_all add: hd_drop_conv_nth)
  with assms(1) show ?thesis
    by (cases "drop 10 t") (auto simp: capture_Some word_boundary_def)
qed

lemma capture_unique:
  assumes i: "capture (drop i t) = Some g1" and j: "capture (drop j t) = Some g2"
    and le: "i \<le> j" and near: "j \<le> i + 10"
  shows "i = j"
proof (rule ccontr)
  assume "i \<noteq> j"
  with le have lt: "i < j" by simp
  from capture_length [OF j] have len: "j + 10 \<le> length t" by auto
  from lt near have k: "i + 10 - j < 10" by simp
  from capture_digit [OF j k] len near have d: "is_digit (t ! (i + 10))"
    by simp
  from lt len have "10 < length (drop i t)" by simp
  from capture_boundary [OF i this] lt len have "\<not> is_word_char (t ! (i + 10))"
    by simp
  with d show False by (simp add: is_digit_word)
qed

lemma capture_append:
  "capture t = Some g \<longleftrightarrow> (\<exists>rest. t = g @ rest \<and> is_run g \<and> word_boundary rest)"
proof
  assume "capture t = Some g"
  then have "g = take 10 t" and "is_run g" and "word_boundary (drop 10 t)"
    by (auto simp: capture_Some)
  then have "t = g @ drop 10 t \<and> is_run g \<and> word_boundary (drop 10 t)" by auto
  then show "\<exists>rest. t = g @ rest \<and> is_run g \<and> word_boundary rest" ..
next
  assume "\<exists>rest. t = g @ rest \<and> is_run g \<and> word_boundary rest"
  then obtain rest where "t = g @ rest" and "is_run g" and "word_boundary rest" by blast
  then show "capture t = Some g" by (simp add: capture_Some is_run_def)
qed

lemma sep_capture_decomp:
  assumes "sep_capture t = Some (k, g)"
  shows "\<exists>s rest. s \<in> {[], '' '', ''-''} \<and> t = s @ g @ rest \<and> is_run g \<and>
           word_boundary rest \<and> k = length s"
proof (cases t)
  case Nil
  with assms show ?thesis by (simp add: sep_capture_def)
next
  case (Cons c cs)
  show ?thesis
  proof (cases "is_sep c \<and> capture cs \<noteq> None")
    case True
    with assms Cons have k: "k = 1" and c: "capture cs = Some g"
      by (auto simp: sep_capture_def)
    from c obtain rest where "cs = g @ rest" and "is_run g" and "word_boundary rest"
      by (auto simp: capture_append)
    with True Cons k have "[c] \<in> {[], '' '', ''-''} \<and> t = [c] @ g @ rest \<and> is_run g \<and>
           word_boundary rest \<and> k = length [c]"
      by (auto simp: is_sep_def)
    then show ?thesis by blast
  next
    case False
    with assms Cons have k: "k = 0" and c: "capture t = Some g"
      by (auto simp: sep_capture_def split: if_splits)
    from c obtain rest where "t = g @ rest" and "is_run g" and "word_boundary rest"
      by (auto simp: capture_append)
    with k have "[] \<in> {[], '' '', ''-''} \<and> t = [] @ g @ rest \<and> is_run g \<and>
           word_boundary rest \<and> k = length ([] :: string)"
      by simp
    then show ?thesis by blast
  qed
qed

lemma try_prefix_decomp:
  assumes "try_prefix p t = Some (k, g)"
  shows "\<exists>s rest. s \<in> {[], '' '', ''-''} \<and> t = p @ s @ g @ rest \<and> is_run g \<and>
           word_boundary rest \<and> k = length p + length s"
proof -
  from assms obtain j where p: "take (length p) t = p"
    and s: "sep_capture (drop (length p) t) = Some (j, g)" and k: "k = length p + j"
    by (auto simp: try_prefix_def split: if_splits)
  from sep_capture_decomp [OF s] obtain s rest where s': "s \<in> {[], '' '', ''-''}"
    and d: "drop (length p) t = s @ g @ rest" and r: "is_run g" "word_boundary rest"
    and j: "j = length s"
    by blast
  from p d have "t = p @ s @ g @ rest"
    by (metis append_take_drop_id)
  with s' r j k show ?thesis by blast
qed

lemma sep_capture_exists:
  assumes "s \<in> {[], '' '', ''-''}" and "capture u = Some g"
  shows "sep_capture (s @ u) \<noteq> None"
proof -
  from capture_length [OF assms(2)] obtain c cs where u: "u = c # cs" by (cases u) auto
  from assms(1) consider "s = []" | "s = '' ''" | "s = ''-''" by blast
  then show ?thesis
    using assms(2) u by cases (auto simp: sep_capture_def is_sep_def split: option.splits)
qed

lemma try_prefix_exists:
  "sep_capture u \<noteq> None \<Longrightarrow> try_prefix p (p @ u) \<noteq> None"
  by (auto simp: try_prefix_def)

lemma first_some_None: "first_some xs = None \<longleftrightarrow> (\<forall>x \<in> set xs. x = None)"
  by (induction xs rule: first_some.induct) auto

lemma match_at_exists:
  assumes p: "p \<in> {''+91'', ''91'', ''0'', []}" and s: "s \<in> {[], '' '', ''-''}"
    and c: "capture u = Some g"
  shows "match_at (p @ s @ u) \<noteq> None"
proof -
  from sep_capture_exists [OF s c] have sc: "sep_capture (s @ u) \<noteq> None" .
  from p consider "p = ''+91''" | "p = ''91''" | "p = ''0''" | "p = []" by blast
  then have "\<exists>x \<in> set [try_prefix ''+91'' (p @ s @ u), try_prefix ''91'' (p @ s @ u),
      try_prefix ''0'' (p @ s @ u), sep_capture (p @ s @ u),
      map_option (Pair 0) (capture (p @ s @ u))]. x \<noteq> None"
  proof cases
    case 1
    with try_prefix_exists [OF sc, of "''+91''"] show ?thesis by simp
  next
    case 2
    with try_prefix_exists [OF sc, of "''91''"] show ?thesis by simp
  next
    case 3
    with try_prefix_exists [OF sc, of "''0''"] show ?thesis by simp
  next
    case 4
    with sc show ?thesis by simp
  qed
  then show ?thesis
    unfolding match_at_def by (simp only: first_some_None option.map_disc_iff) blast
qed

lemma match_at_decomp:
  assumes "match_at t = Some (n, g)"
  shows "\<exists>p s rest. p \<in> {''+91'', ''91'', ''0'', []} \<and> s \<in> {[], '' '', ''-''} \<and>
           t = p @ s @ g @ rest \<and> is_run g \<and> word_boundary rest \<and>
           n = length p + length s + 10"
proof -
  from assms obtain k where f: "first_some
          [try_prefix ''+91'' t, try_prefix ''91'' t, try_prefix ''0'' t,
           sep_capture t, map_option (Pair 0) (capture t)] = Some (k, g)"
    and n: "n = k + 10"
    by (auto simp: match_at_def)
  from first_some_cases [OF f]
  consider "try_prefix ''+91'' t = Some (k, g)" | "try_prefix ''91'' t = Some (k, g)"
    | "try_prefix ''0'' t = Some (k, g)" | "sep_capture t = Some (k, g)"
    | "map_option (Pair 0) (capture t) = Some (k, g)"
    by blast
  then show ?thesis
  proof cases
    case 1
    from try_prefix_decomp [OF this] n show ?thesis by blast
  next
    case 2
    from try_prefix_decomp [OF this] n show ?thesis by blast
  next
    case 3
    from try_prefix_decomp [OF this] n show ?thesis by blast
  next
    case 4
    from sep_capture_decomp [OF this] obtain s rest where "s \<in> {[], '' '', ''-''}"
      and "t = [] @ s @ g @ rest" and "is_run g" and "word_boundary rest"
      and "k = length ([] :: string) + length s" by auto
    with n show ?thesis by blast
  next
    case 5
    then have "k = 0" and "capture t = Some g" by auto
    then obtain rest where "t = [] @ [] @ g @ rest" and "is_run g" and "word_boundary rest"
      and "k = length ([] :: string) + length ([] :: string)"
      by (auto simp: capture_append)
    with n show ?thesis by blast
  qed
qed

lemma match_at_offset:
  assumes c: "capture (drop k t) = Some g" and m: "match_at t = Some (n, g')"
    and k: "k < n"
  shows "n = k + 10 \<and> g' = g"
proof -
  from match_at_bounds [OF m] have n: "10 \<le> n" "n \<le> 14"
    and c': "capture (drop (n - 10) t) = Some g'" by simp_all
  have "n - 10 = k"
  proof (cases "n - 10 \<le> k")
    case True
    from k n have "k \<le> n - 10 + 10" by simp
    from capture_unique [OF c' c True this] show ?thesis .
  next
    case False
    then have le: "k \<le> n - 10" by simp
    from n have "n - 10 \<le> k + 10" by simp
    from capture_unique [OF c c' le this] show ?thesis by simp
  qed
  with n c c' show ?thesis by auto
qed

lemma match_at_compose:
  assumes p: "p \<in> {''+91'', ''91'', ''0'', []}" and s: "s \<in> {[], '' '', ''-''}"
    and r: "is_run g" and b: "word_boundary rest"
  shows "match_at (p @ s @ g @ rest) = Some (length p + length s + 10, g)"
proof -
  from r b have c: "capture (g @ rest) = Some g" by (auto simp: capture_append)
  from match_at_exists [OF p s c] obtain n g' where
    m: "match_at (p @ s @ g @ rest) = Some (n, g')" by auto
  from p s have "length p + length s \<le> 4" by auto
  with match_at_bounds [OF m] have l: "length p + length s < n" by simp
  from c have "capture (drop (length p + length s) (p @ s @ g @ rest)) = Some g"
    by simp
  from match_at_offset [OF this m l] m show ?thesis by simp
qed

lemma match_at_iff:
  "match_at t = Some (n, g) \<longleftrightarrow>
     (\<exists>p s rest. p \<in> {''+91'', ''91'', ''0'', []} \<and> s \<in> {[], '' '', ''-''} \<and>
        t = p @ s @ g @ rest \<and> is_run g \<and> word_boundary rest \<and>
        n = length p + length s + 10)"
proof
  assume "match_at t = Some (n, g)"
  then show "\<exists>p s rest. p \<in> {''+91'', ''91'', ''0'', []} \<and> s \<in> {[], '' '', ''-''} \<and>
        t = p @ s @ g @ rest \<and> is_run g \<and> word_boundary rest \<and>
        n = length p + length s + 10"
    by (rule match_at_decomp)
next
  assume "\<exists>p s rest. p \<in> {''+91'', ''91'', ''0'', []} \<and> s \<in> {[], '' '', ''-''} \<and>
        t = p @ s @ g @ rest \<and> is_run g \<and> word_boundary rest \<and>
        n = length p + length s + 10"
  then obtain p s rest where "p \<in> {''+91'', ''91'', ''0'', []}" and "s \<in> {[], '' '', ''-''}"
    and t: "t = p @ s @ g @ rest" and "is_run g" and "word_boundary rest"
    and n: "n = length p + length s + 10"
    by blast
  from match_at_compose [OF this(1,2,4,5)] t n show "match_at t = Some (n, g)"
    by simp
qed

lemma matchAll_Nil: "matchAll [] = []"
  by (simp add: matchAll.simps [of "[]"] match_at_def try_prefix_def sep_capture_def
      capture_def is_run_def)

lemma matchAll_None: "match_at (a # cs) = None \<Longrightarrow> matchAll (a # cs) = matchAll cs"
  by (simp add: matchAll.simps [of "a # cs"])

lemma matchAll_Some: "match_at t = Some (n, g) \<Longrightarrow> matchAll t = g # matchAll (drop n t)"
  by (simp add: matchAll.simps [of t])

lemma matchAll_finds:
  "capture (drop j t) = Some g \<Longrightarrow> g \<in> set (matchAll t)"
proof (induction t arbitrary: j rule: matchAll.induct)
  case (1 t)
  note c = \<open>capture (drop j t) = Some g\<close>
  show ?case
  proof (cases "match_at t")
    case None
    have "j \<noteq> 0"
    proof
      assume "j = 0"
      with c have "capture t = Some g" by simp
      from match_at_exists [of "[]" "[]", OF _ _ this] None show False by simp
    qed
    then obtain j' where j: "j = Suc j'" by (cases j) auto
    from capture_length [OF c] obtain a cs where t: "t = a # cs" by (cases t) auto
    with c j have "capture (drop j' cs) = Some g" by simp
    from "1.IH"(1) [OF None t this] have "g \<in> set (matchAll cs)" .
    with None t show ?thesis by (simp add: matchAll_None)
  next
    case (Some x)
    obtain n g' where x: "x = (n, g')" by (cases x)
    with Some have m: "match_at t = Some (n, g')" by simp
    then have eq: "matchAll t = g' # matchAll (drop n t)"
      by (rule matchAll_Some)
    show ?thesis
    proof (cases "n \<le> j")
      case True
      with c have "capture (drop (j - n) (drop n t)) = Some g" by simp
      from "1.IH"(2) [OF Some x [symmetric] this] eq show ?thesis by simp
    next
      case False
      then have "j < n" by simp
      from match_at_offset [OF c m this] eq show ?thesis by simp
    qed
  qed
qed

lemma matchAll_sound:
  "g \<in> set (matchAll t) \<Longrightarrow> \<exists>j. capture (drop j t) = Some g"
proof (induction t rule: matchAll.induct)
  case (1 t)
  show ?case
  proof (cases "match_at t")
    case None
    show ?thesis
    proof (cases t)
      case Nil
      with "1.prems" show ?thesis by (simp add: matchAll_Nil)
    next
      case (Cons a cs)
      with None "1.prems" have "g \<in> set (matchAll cs)"
        by (simp add: matchAll_None)
      from "1.IH"(1) [OF None Cons this] obtain j where "capture (drop j cs) = Some g" ..
      with Cons have "capture (drop (Suc j) t) = Some g" by simp
      then show ?thesis ..
    qed
  next
    case (Some x)
    obtain n g' where x: "x = (n, g')" by (cases x)
    with Some have m: "match_at t = Some (n, g')" by simp
    with "1.prems" have "g = g' \<or> g \<in> set (matchAll (drop n t))"
      by (simp add: matchAll_Some)
    then show ?thesis
    proof
      assume "g = g'"
      with match_at_bounds [OF m] show ?thesis by blast
    next
      assume "g \<in> set (matchAll (drop n t))"
      from "1.IH"(2) [OF Some x [symmetric] this] obtain j where
        "capture (drop j (drop n t)) = Some g" ..
      then have "capture (drop (j + n) t) = Some g" by simp
      then show ?thesis ..
    qed
  qed
qed

lemma first_seen_Cons:
  "rev (remdups (rev (x # xs))) = x # filter (\<lambda>y. y \<noteq> x) (rev (remdups (rev xs)))"
proof -
  have "remdups (ys @ [x]) = filter (\<lambda>y. y \<noteq> x) (remdups ys) @ [x]" for ys
    by (induction ys) auto
  then show ?thesis
    by (simp add: rev_filter)
qed

lemma foldl_set_add:
  "foldl set_add acc xs = acc @ filter (\<lambda>x. x \<notin> set acc) (rev (remdups (rev xs)))"
proof (induction xs arbitrary: acc)
  case Nil
  show ?case by simp
next
  case (Cons x xs)
  show ?case
  proof (cases "x \<in> set acc")
    case True
    then have "filter (\<lambda>y. y \<notin> set acc) (filter (\<lambda>y. y \<noteq> x) (rev (remdups (rev xs))))
        = filter (\<lambda>y. y \<notin> set acc) (rev (remdups (rev xs)))"
      by (auto intro: filter_cong)
    with True Cons.IH [of acc] show ?thesis
      by (simp add: first_seen_Cons set_add_def del: rev.simps)
  next
    case False
    have "filter (\<lambda>y. y \<notin> set (acc @ [x])) (rev (remdups (rev xs)))
        = filter (\<lambda>y. y \<notin> set acc) (filter (\<lambda>y. y \<noteq> x) (rev (remdups (rev xs))))"
      by (auto intro: filter_cong)
    with False Cons.IH [of "acc @ [x]"] show ?thesis
      by (simp add: first_seen_Cons set_add_def del: rev.simps)
  qed
qed

lemma foldl_guarded:
  "\<forall>g \<in> set gs. g \<noteq> [] \<Longrightarrow>
     foldl (\<lambda>results g. if g \<noteq> [] then set_add results (f g) else results) acc gs
       = foldl set_add acc (map f gs)"
  by (induction gs arbitrary: acc) auto

lemma matchAll_run: "g \<in> set (matchAll t) \<Longrightarrow> is_run g"
  using matchAll_sound [of g t] by (auto simp: capture_Some)

lemma extract_first_seen:
  "extractIndianNumbers text = rev (remdups (rev (map (\<lambda>g. ''91'' @ g) (matchAll text))))"
proof -
  have "\<forall>g \<in> set (matchAll text). g \<noteq> []"
    using matchAll_run by (fastforce simp: is_run_def)
  then show ?thesis
    unfolding extractIndianNumbers_def by (simp add: foldl_guarded foldl_set_add)
qed

lemma set_extract:
  "set (extractIndianNumbers text) = (\<lambda>g. ''91'' @ g) ` set (matchAll text)"
  by (simp add: extract_first_seen)

lemma distinct_extract: "distinct (extractIndianNumbers text)"
  by (simp add: extract_first_seen)

subsection \<open>The matching pattern and the normalisation\<close>

text \<open>
  The specification words the end of a match as "the run is not immediately followed by
  another digit". \<open>spec_token_boundary\<close> is that reading, kept apart from
  \<open>word_boundary\<close>, which is what \<^verbatim>\<open>\b\<close> of the source does.
\<close>

definition spec_token_boundary :: "string \<Rightarrow> bool" where
  "spec_token_boundary rest = (case rest of [] \<Rightarrow> True | c # _ \<Rightarrow> \<not> is_digit c)"

lemma extract_normalized:
  "x \<in> set (extractIndianNumbers text) \<Longrightarrow>
     length x = 12 \<and> take 2 x = ''91'' \<and> is_run (drop 2 x)"
  using matchAll_run by (auto simp: set_extract is_run_def)

lemma extract_foldl:
  "extractIndianNumbers text = foldl set_add [] (map (\<lambda>g. ''91'' @ g) (matchAll text))"
proof -
  have "\<forall>g \<in> set (matchAll text). g \<noteq> []"
    using matchAll_run by (fastforce simp: is_run_def)
  then show ?thesis
    unfolding extractIndianNumbers_def by (simp add: foldl_guarded)
qed

text \<open>
  C1 (amended). At one position the expression matches exactly the texts of the shape
  prefix, separator, run, rest: the prefix is one of \<open>+91\<close>, \<open>91\<close>, \<open>0\<close> or
  nothing, the separator is nothing, one space or one hyphen, the run is ten digits the
  first of which is 6 to 9, and the rest is empty or starts with a character that is not
  a word character (a letter, a digit or the underscore; not only "not a digit"). Group 1
  is the run and the match is as long as prefix, separator and run together. The global
  scan takes the leftmost match, goes on behind it, and moves one character on where
  nothing matches; the groups it collects are exactly the runs that stand somewhere in
  the text in front of such a word boundary. Every run is normalised to \<open>91\<close> followed
  by the run, twelve characters, and added to the result set.
\<close>

theorem extract_pattern:
  "(match_at t = Some (n, g) \<longleftrightarrow>
      (\<exists>p s rest. p \<in> {''+91'', ''91'', ''0'', []} \<and> s \<in> {[], '' '', ''-''} \<and>
         t = p @ s @ g @ rest \<and> is_run g \<and> word_boundary rest \<and>
         n = length p + length s + 10)) \<and>
   (match_at t = Some (n, g) \<longrightarrow> matchAll t = g # matchAll (drop n t)) \<and>
   (match_at (c # cs) = None \<longrightarrow> matchAll (c # cs) = matchAll cs) \<and>
   matchAll [] = [] \<and>
   set (matchAll text) = {g. \<exists>j. capture (drop j text) = Some g} \<and>
   extractIndianNumbers text = foldl set_add [] (map (\<lambda>g. ''91'' @ g) (matchAll text)) \<and>
   (\<forall>x \<in> set (extractIndianNumbers text).
      length x = 12 \<and> take 2 x = ''91'' \<and> is_run (drop 2 x))"
proof (intro conjI)
  show "match_at t = Some (n, g) \<longleftrightarrow>
      (\<exists>p s rest. p \<in> {''+91'', ''91'', ''0'', []} \<and> s \<in> {[], '' '', ''-''} \<and>
         t = p @ s @ g @ rest \<and> is_run g \<and> word_boundary rest \<and>
         n = length p + length s + 10)"
    by (rule match_at_iff)
  show "match_at t = Some (n, g) \<longrightarrow> matchAll t = g # matchAll (drop n t)"
    by (simp add: matchAll_Some)
  show "match_at (c # cs) = None \<longrightarrow> matchAll (c # cs) = matchAll cs"
    by (simp add: matchAll_None)
  show "matchAll [] = []"
    by (rule matchAll_Nil)
  show "set (matchAll text) = {g. \<exists>j. capture (drop j text) = Some g}"
    using matchAll_finds matchAll_sound by blast
  show "extractIndianNumbers text = foldl set_add [] (map (\<lambda>g. ''91'' @ g) (matchAll text))"
    by (rule extract_foldl)
  show "\<forall>x \<in> set (extractIndianNumbers text).
      length x = 12 \<and> take 2 x = ''91'' \<and> is_run (drop 2 x)"
    using extract_normalized by blast
qed

theorem extract_pattern_witness:
  "match_at ''+91-9876543210, 08123456789'' = Some (14, ''9876543210'') \<and>
   matchAll ''+91-9876543210, 08123456789'' = ''9876543210'' # matchAll '', 08123456789'' \<and>
   extractIndianNumbers ''+91-9876543210, 08123456789'' = [''919876543210'', ''918123456789'']"
proof -
  let ?t = "''+91-9876543210, 08123456789''"
  note inst = extract_pattern [of ?t 14 "''9876543210''" "CHR ''+''" "''91-9876543210, 08123456789''" ?t]
  have "''+91'' \<in> {''+91'', ''91'', ''0'', []} \<and> ''-'' \<in> {[], '' '', ''-''} \<and>
         ?t = ''+91'' @ ''-'' @ ''9876543210'' @ '', 08123456789'' \<and> is_run ''9876543210'' \<and>
         word_boundary '', 08123456789'' \<and> 14 = length ''+91'' + length ''-'' + 10"
    by (simp add: is_run_def is_6to9_def is_digit_def word_boundary_def is_word_char_def)
  then have "\<exists>p s rest. p \<in> {''+91'', ''91'', ''0'', []} \<and> s \<in> {[], '' '', ''-''} \<and>
         ?t = p @ s @ ''9876543210'' @ rest \<and> is_run ''9876543210'' \<and> word_boundary rest \<and>
         14 = length p + length s + 10"
    by blast
  with inst have m: "match_at ?t = Some (14, ''9876543210'')" by blast
  with inst have "matchAll ?t = ''9876543210'' # matchAll (drop 14 ?t)" by blast
  then have a: "matchAll ?t = ''9876543210'' # matchAll '', 08123456789''" by simp
  have "extractIndianNumbers ?t = [''919876543210'', ''918123456789'']"
    by code_simp
  with m a show ?thesis by simp
qed

text \<open>
  The claim as worded fails on \<open>9876543210x\<close>: the run is there and no digit follows
  it, yet the expression does not match, since a letter is a word character.
\<close>

theorem extract_pattern_counterexample:
  "is_run ''9876543210'' \<and> spec_token_boundary ''x'' \<and>
   match_at ([] @ [] @ ''9876543210'' @ ''x'') = None \<and>
   extractIndianNumbers ''9876543210x'' = []"
  by code_simp

subsection \<open>Occurrences of a number in a text\<close>

lemma extract_finds:
  assumes "capture (drop j text) = Some g"
  shows "''91'' @ g \<in> set (extractIndianNumbers text)"
  using matchAll_finds [OF assms] by (simp add: set_extract)

lemma occurrence_found:
  assumes r: "is_run g" and b: "word_boundary rest"
  shows "''91'' @ g \<in> set (extractIndianNumbers (pre @ g @ rest))"
proof -
  from r b have "capture (g @ rest) = Some g" by (auto simp: capture_append)
  then have "capture (drop (length pre) (pre @ g @ rest)) = Some g" by simp
  then show ?thesis by (rule extract_finds)
qed

lemma is_run_9876543210: "is_run ''9876543210''"
  by (simp add: is_run_def is_6to9_def is_digit_def)

text \<open>
  C4 (amended). For every text in which \<open>9876543210\<close> stands in front of the end of the
  text or of a character that is not a word character, the result contains
  \<open>919876543210\<close>: whatever the scan matched before, it cannot step over this run.
\<close>

theorem extract_9876543210:
  "word_boundary rest \<Longrightarrow>
     ''919876543210'' \<in> set (extractIndianNumbers (pre @ ''9876543210'' @ rest))"
  using occurrence_found [OF is_run_9876543210, of rest pre] by simp

theorem extract_9876543210_witness:
  "word_boundary '', thanks'' \<and>
   ''919876543210'' \<in> set (extractIndianNumbers (''call 9876543210, thanks''))"
proof -
  have b: "word_boundary '', thanks''"
    by (simp add: word_boundary_def is_word_char_def)
  from extract_9876543210 [OF b, of "''call ''"] b show ?thesis by simp
qed

text \<open>
  Without the boundary the claim fails: \<open>98765432101\<close> contains \<open>9876543210\<close>, but a
  digit follows it, and the scan finds the run \<open>8765432101\<close> instead.
\<close>

theorem extract_9876543210_counterexample:
  "''98765432101'' = [] @ ''9876543210'' @ ''1'' \<and>
   extractIndianNumbers ''98765432101'' = [''918765432101''] \<and>
   ''919876543210'' \<notin> set (extractIndianNumbers ''98765432101'')"
  by code_simp

subsection \<open>Deduplication\<close>

lemma count_list_distinct:
  "distinct xs \<Longrightarrow> x \<in> set xs \<Longrightarrow> count_list xs x = 1"
  by (induction xs) auto

text \<open>
  C5 (amended). The result has no duplicates and lists the normalised matches in the order
  in which each is first seen (\<open>remdups\<close> keeps the last copy of an element, so between
  the two \<open>rev\<close> it keeps the first). A text in which no run stands in front of a word
  boundary gives the empty list; the function is total and has no error result. A text
  that contains \<open>+91 9876543210\<close>, \<open>919876543210\<close> and \<open>09876543210\<close>, at least one of
  them in front of a word boundary, gives \<open>919876543210\<close> exactly once.
\<close>

theorem extract_dedup:
  "distinct (extractIndianNumbers text) \<and>
   extractIndianNumbers text = rev (remdups (rev (map (\<lambda>g. ''91'' @ g) (matchAll text)))) \<and>
   ((\<forall>j. capture (drop j text) = None) \<longrightarrow> extractIndianNumbers text = []) \<and>
   (text = a @ ''+91 9876543210'' @ b \<and> text = c @ ''919876543210'' @ d \<and>
    text = e @ ''09876543210'' @ f \<and> (word_boundary b \<or> word_boundary d \<or> word_boundary f)
      \<longrightarrow> count_list (extractIndianNumbers text) ''919876543210'' = 1)"
proof (intro conjI impI)
  show "distinct (extractIndianNumbers text)" by (rule distinct_extract)
  show "extractIndianNumbers text = rev (remdups (rev (map (\<lambda>g. ''91'' @ g) (matchAll text))))"
    by (rule extract_first_seen)
next
  assume none: "\<forall>j. capture (drop j text) = None"
  have "matchAll text = []"
  proof (cases "matchAll text")
    case (Cons g gs)
    then have "g \<in> set (matchAll text)" by simp
    from matchAll_sound [OF this] none show ?thesis by simp
  qed simp
  then show "extractIndianNumbers text = []"
    by (simp add: extract_first_seen)
next
  assume h: "text = a @ ''+91 9876543210'' @ b \<and> text = c @ ''919876543210'' @ d \<and>
    text = e @ ''09876543210'' @ f \<and> (word_boundary b \<or> word_boundary d \<or> word_boundary f)"
  then consider "text = (a @ ''+91 '') @ ''9876543210'' @ b" "word_boundary b"
    | "text = (c @ ''91'') @ ''9876543210'' @ d" "word_boundary d"
    | "text = (e @ ''0'') @ ''9876543210'' @ f" "word_boundary f"
    by auto
  then have "''919876543210'' \<in> set (extractIndianNumbers text)"
  proof cases
    case 1
    from occurrence_found [OF is_run_9876543210 "1"(2), of "a @ ''+91 ''"] "1"(1)
    show ?thesis by simp
  next
    case 2
    from occurrence_found [OF is_run_9876543210 "2"(2), of "c @ ''91''"] "2"(1)
    show ?thesis by simp
  next
    case 3
    from occurrence_found [OF is_run_9876543210 "3"(2), of "e @ ''0''"] "3"(1)
    show ?thesis by simp
  qed
  with distinct_extract [of "text"]
  show "count_list (extractIndianNumbers text) ''919876543210'' = 1"
    by (simp add: count_list_distinct)
qed

theorem extract_dedup_witness:
  "extractIndianNumbers ''+91 9876543210 919876543210 09876543210''= [''919876543210''] \<and>
   count_list (extractIndianNumbers ''+91 9876543210 919876543210 09876543210'')
     ''919876543210'' = 1 \<and>
   extractIndianNumbers ''no numbers here: 5876543210'' = []"
proof -
  let ?t = "''+91 9876543210 919876543210 09876543210''"
  have w: "word_boundary []" by (simp add: word_boundary_def)
  have "?t = [] @ ''+91 9876543210'' @ '' 919876543210 09876543210'' \<and>
        ?t = ''+91 9876543210 '' @ ''919876543210'' @ '' 09876543210'' \<and>
        ?t = ''+91 9876543210 919876543210 '' @ ''09876543210'' @ [] \<and>
        (word_boundary '' 919876543210 09876543210'' \<or> word_boundary '' 09876543210'' \<or>
         word_boundary [])"
    using w by simp
  with extract_dedup [of ?t "[]" "'' 919876543210 09876543210''" "''+91 9876543210 ''"
      "'' 09876543210''" "''+91 9876543210 919876543210 ''" "[]"]
  have c: "count_list (extractIndianNumbers ?t) ''919876543210'' = 1" by blast
  have "extractIndianNumbers ?t = [''919876543210'']" by code_simp
  moreover have "extractIndianNumbers ''no numbers here: 5876543210'' = []" by code_simp
  ultimately show ?thesis using c by simp
qed

text \<open>
  A text can contain the three variants and give no \<open>919876543210\<close> at all: here each
  is followed by the digit 1, and the only match is the run \<open>8765432101\<close>.
\<close>

theorem extract_dedup_counterexample:
  "extractIndianNumbers
     (''+91 9876543210'' @ ''1 '' @ ''919876543210'' @ ''1 '' @ ''09876543210'' @ ''1'')
     = [''918765432101''] \<and>
   count_list (extractIndianNumbers
     (''+91 9876543210'' @ ''1 '' @ ''919876543210'' @ ''1 '' @ ''09876543210'' @ ''1''))
     ''919876543210'' = 0"
  by code_simp

subsection \<open>Extracting from the extracted numbers\<close>

text \<open>
  \<open>join_text sep\<close> is \<^verbatim>\<open>Array.prototype.join(sep)\<close>, the way the repository itself
  turns a list of numbers into text (\<^verbatim>\<open>numbers.map(...).join("\n")\<close> in the CSV export).
  \<open>normalized\<close> is the shape of an extracted number: \<open>91\<close> and a run.
\<close>

fun join_text :: "string \<Rightarrow> string list \<Rightarrow> string" where
  "join_text sep [] = []"
| "join_text sep [x] = x"
| "join_text sep (x # y # ys) = x @ sep @ join_text sep (y # ys)"

definition normalized :: "string \<Rightarrow> bool" where
  "normalized x = (take 2 x = ''91'' \<and> is_run (drop 2 x))"

lemma normalized_shape: "normalized x \<Longrightarrow> x = ''91'' @ drop 2 x"
  by (metis append_take_drop_id normalized_def)

lemma number_first:
  assumes r: "is_run g" and b: "word_boundary rest"
  shows "matchAll (''91'' @ g @ rest) = g # matchAll rest"
proof -
  have "match_at (''91'' @ [] @ g @ rest) = Some (length ''91'' + length ([] :: string) + 10, g)"
    using r b by (intro match_at_compose) simp_all
  then have "match_at (''91'' @ g @ rest) = Some (12, g)" by simp
  from matchAll_Some [OF this] r show ?thesis by (simp add: is_run_def)
qed

lemma skip_one:
  assumes r: "is_run g" and b: "word_boundary rest"
  shows "matchAll (c # ''91'' @ g @ rest) = matchAll (''91'' @ g @ rest)"
proof (cases "match_at (c # ''91'' @ g @ rest)")
  case None
  then show ?thesis by (rule matchAll_None)
next
  case (Some x)
  obtain n g' where x: "x = (n, g')" by (cases x)
  with Some have m: "match_at (c # ''91'' @ g @ rest) = Some (n, g')" by simp
  from r b have "capture (g @ rest) = Some g" by (auto simp: capture_append)
  then have c: "capture (drop 3 (c # ''91'' @ g @ rest)) = Some g" by simp
  from match_at_bounds [OF m] have "3 < n" by simp
  from match_at_offset [OF c m this] have "n = 13" and "g' = g" by simp_all
  with matchAll_Some [OF m] r have "matchAll (c # ''91'' @ g @ rest) = g # matchAll rest"
    by (simp add: is_run_def)
  with number_first [OF r b] show ?thesis by simp
qed

lemma no_match_nondigit:
  assumes c: "\<not> is_digit c" and c': "\<not> is_digit c'"
  shows "match_at (c # c' # w) = None"
proof (cases "match_at (c # c' # w)")
  case None
  then show ?thesis .
next
  case (Some x)
  obtain n g where "x = (n, g)" by (cases x)
  with Some have "match_at (c # c' # w) = Some (n, g)" by simp
  from match_at_decomp [OF this] obtain p s rest where
    p: "p \<in> {''+91'', ''91'', ''0'', []}" and s: "s \<in> {[], '' '', ''-''}"
    and t: "c # c' # w = p @ s @ g @ rest" and r: "is_run g"
    by blast
  from r obtain d ds where g: "g = d # ds" and d: "is_digit d"
    by (cases g) (auto simp: is_run_def is_6to9_digit)
  have w9: "is_digit CHR ''9''" and w0: "is_digit CHR ''0''"
    by (simp_all add: is_digit_def)
  from p s t g c c' d w9 w0 show ?thesis by auto
qed

lemma skip_sep:
  assumes r: "is_run g" and b: "word_boundary rest"
  shows "list_all (\<lambda>c. \<not> is_digit c) sep \<Longrightarrow>
     matchAll (sep @ ''91'' @ g @ rest) = matchAll (''91'' @ g @ rest)"
proof (induction sep)
  case Nil
  show ?case by simp
next
  case (Cons c cs)
  show ?case
  proof (cases cs)
    case Nil
    with skip_one [OF r b, of c] show ?thesis by simp
  next
    case (Cons c' cs')
    with Cons.prems have "\<not> is_digit c" and "\<not> is_digit c'" by simp_all
    from no_match_nondigit [OF this, of "cs' @ ''91'' @ g @ rest"]
    have "match_at (c # cs @ ''91'' @ g @ rest) = None" using Cons by simp
    from matchAll_None [OF this] Cons.IH Cons.prems show ?thesis by simp
  qed
qed

lemma join_text_Cons:
  "join_text sep (y # ys) = y @ (if ys = [] then [] else sep @ join_text sep ys)"
  by (cases ys) simp_all

lemma boundary_sep:
  "sep \<noteq> [] \<Longrightarrow> \<not> is_word_char (hd sep) \<Longrightarrow> word_boundary (sep @ w)"
  by (cases sep) (simp_all add: word_boundary_def)

lemma matchAll_join:
  assumes sep: "sep \<noteq> []" "\<not> is_word_char (hd sep)" "list_all (\<lambda>c. \<not> is_digit c) sep"
  shows "list_all normalized ns \<Longrightarrow> matchAll (join_text sep ns) = map (drop 2) ns"
proof (induction ns)
  case Nil
  show ?case by (simp add: matchAll_Nil)
next
  case (Cons x ns)
  from Cons.prems have nx: "normalized x" and nns: "list_all normalized ns" by simp_all
  from nx have r: "is_run (drop 2 x)" by (simp add: normalized_def)
  show ?case
  proof (cases ns)
    case Nil
    have "matchAll (''91'' @ drop 2 x @ []) = drop 2 x # matchAll []"
      by (rule number_first [OF r]) (simp add: word_boundary_def)
    with normalized_shape [OF nx] Nil show ?thesis
      by (simp add: matchAll_Nil)
  next
    case (Cons y ys)
    define tl_y where "tl_y = (if ys = [] then [] else sep @ join_text sep ys)"
    define u where "u = join_text sep ns"
    from nns Cons have ny: "normalized y" by simp
    then have ry: "is_run (drop 2 y)" by (simp add: normalized_def)
    have u: "u = ''91'' @ drop 2 y @ tl_y"
      using normalized_shape [OF ny] Cons
      by (simp add: u_def tl_y_def join_text_Cons del: join_text.simps)
    have bty: "word_boundary tl_y"
      using boundary_sep [OF sep(1,2)] by (simp add: tl_y_def word_boundary_def)
    have "join_text sep (x # ns) = ''91'' @ drop 2 x @ (sep @ u)"
      using normalized_shape [OF nx] Cons by (simp add: u_def)
    moreover have "matchAll (''91'' @ drop 2 x @ (sep @ u)) = drop 2 x # matchAll (sep @ u)"
      by (rule number_first [OF r boundary_sep [OF sep(1,2)]])
    moreover have "matchAll (sep @ u) = matchAll u"
      unfolding u by (rule skip_sep [OF ry bty sep(3)])
    moreover have "matchAll u = map (drop 2) ns"
      unfolding u_def by (rule Cons.IH [OF nns])
    ultimately show ?thesis by simp
  qed
qed

lemma extract_all_normalized: "list_all normalized (extractIndianNumbers text)"
  using matchAll_run by (auto simp: list_all_iff set_extract normalized_def)

text \<open>
  C6. Extraction is idempotent: the numbers extracted from a text, joined with a separator
  between them, are extracted again unchanged, in the same order and so as the same set.
  The separator is any non-empty string without a digit that starts with a character
  that is not a word character (a comma, a space, a line break, a comma and a space,
  \<open> and \<close>, ...): it has to end one number before the next begins.
\<close>

theorem extract_idempotent:
  assumes "sep \<noteq> []" and "\<not> is_word_char (hd sep)"
    and "list_all (\<lambda>c. \<not> is_digit c) sep"
  shows "extractIndianNumbers (join_text sep (extractIndianNumbers text))
           = extractIndianNumbers text \<and>
         set (extractIndianNumbers (join_text sep (extractIndianNumbers text)))
           = set (extractIndianNumbers text)"
proof -
  let ?ns = "extractIndianNumbers text"
  have m: "matchAll (join_text sep ?ns) = map (drop 2) ?ns"
    by (rule matchAll_join [OF assms extract_all_normalized])
  have "map (\<lambda>g. ''91'' @ g) (map (drop 2) ?ns) = ?ns"
  proof -
    have "\<forall>x \<in> set ?ns. ''91'' @ drop 2 x = x"
      using extract_all_normalized [of "text"] normalized_shape
      by (simp add: list_all_iff)
    then have "map (\<lambda>x. ''91'' @ drop 2 x) ?ns = map (\<lambda>x. x) ?ns"
      by (intro map_cong) simp_all
    then show ?thesis by (simp add: comp_def)
  qed
  with m have "extractIndianNumbers (join_text sep ?ns) = rev (remdups (rev ?ns))"
    by (simp only: extract_first_seen [of "join_text sep ?ns"])
  with distinct_extract [of "text"] have "extractIndianNumbers (join_text sep ?ns) = ?ns"
    by (simp add: distinct_remdups_id)
  then show ?thesis by simp
qed

theorem extract_idempotent_witness:
  "extractIndianNumbers ''Ravi +91 9876543210, Asha 08123456789, Ravi 9876543210''
     = [''919876543210'', ''918123456789''] \<and>
   join_text '','' [''919876543210'', ''918123456789''] = ''919876543210,918123456789'' \<and>
   extractIndianNumbers ''919876543210,918123456789'' = [''919876543210'', ''918123456789'']"
proof -
  let ?t = "''Ravi +91 9876543210, Asha 08123456789, Ravi 9876543210''"
  have e: "extractIndianNumbers ?t = [''919876543210'', ''918123456789'']"
    by code_simp
  have s: "'','' \<noteq> []" "\<not> is_word_char (hd '','')" "list_all (\<lambda>c. \<not> is_digit c) '',''"
    by (simp_all add: is_word_char_def is_digit_def)
  from extract_idempotent [OF s, of ?t] e show ?thesis by simp
qed


section \<open>Image enhancer (services/imageProcessing: preprocessImage, sharpen)\<close>

text \<open>
  The pixel buffer of an \<^verbatim>\<open>ImageData\<close> is a \<^verbatim>\<open>Uint8ClampedArray\<close>: a list of bytes, four
  per pixel (red, green, blue, alpha), row by row. A JavaScript number is a rational or
  \<^verbatim>\<open>NaN\<close> (\<open>None\<close>): the numbers of this code are sums of bytes times small integers, or
  such a sum divided by 3. The double nearest to a third of an integer compares with 128
  and 50, and rounds to an integer, as the exact third does, so the rational stands for
  the double. Reading a typed array out of range gives \<^verbatim>\<open>undefined\<close>, which is
  \<^verbatim>\<open>NaN\<close> in arithmetic; writing out of range does nothing, as \<open>xs[i := v]\<close> does.
  What \<^verbatim>\<open>getImageData\<close> returns for a buffer that \<^verbatim>\<open>putImageData\<close> stored is given by
  the browser: it is the buffer itself where the pixels are opaque, and may differ from
  it where they are not, since a canvas keeps its colours premultiplied by alpha.
\<close>

subsection \<open>Numbers and the clamped byte store\<close>

type_synonym byte = "8 word"
type_synonym num = "rat option"

definition rd :: "byte list \<Rightarrow> nat \<Rightarrow> num" where
  "rd a i = (if i < length a then Some (of_nat (unat (a ! i))) else None)"

definition num_add :: "num \<Rightarrow> num \<Rightarrow> num" where
  "num_add a b = (case (a, b) of (Some x, Some y) \<Rightarrow> Some (x + y) | _ \<Rightarrow> None)"

definition num_mul :: "num \<Rightarrow> num \<Rightarrow> num" where
  "num_mul a b = (case (a, b) of (Some x, Some y) \<Rightarrow> Some (x * y) | _ \<Rightarrow> None)"

definition num_div :: "num \<Rightarrow> num \<Rightarrow> num" where
  "num_div a b = (case (a, b) of (Some x, Some y) \<Rightarrow> (if y = 0 then None else Some (x / y)) | _ \<Rightarrow> None)"

text \<open>
  Storing a number in a \<^verbatim>\<open>Uint8ClampedArray\<close> is \<^verbatim>\<open>ToUint8Clamp\<close> of ECMAScript:
  \<^verbatim>\<open>NaN\<close> becomes 0, the number is clamped to 0..255 and rounded to the nearest integer,
  a tie to the even one.
\<close>

definition toUint8Clamp :: "num \<Rightarrow> byte" where
  "toUint8Clamp n =
     (case n of
        None \<Rightarrow> 0
      | Some x \<Rightarrow>
          (let c = min (max x 0) 255; f = \<lfloor>c\<rfloor>
           in if c < of_int f + 1 / 2 then word_of_int f
              else if of_int f + 1 / 2 < c then word_of_int (f + 1)
              else if even f then word_of_int f else word_of_int (f + 1)))"

subsection \<open>Stage 1: grayscale and contrast\<close>

text \<open>
  \<^verbatim>\<open>for (let i = 0; i < data.length; i += 4) { const avg = (data[i] + data[i + 1] + data[i + 2]) / 3;
    const value = avg > 128 ? 255 : (avg < 50 ? 0 : avg);
    data[i] = value; data[i + 1] = value; data[i + 2] = value; }\<close>
\<close>

definition contrast :: "num \<Rightarrow> num" where
  "contrast avg =
     (case avg of
        None \<Rightarrow> None
      | Some a \<Rightarrow> if a > 128 then Some 255 else if a < 50 then Some 0 else Some a)"

definition pixel_avg :: "byte list \<Rightarrow> nat \<Rightarrow> num" where
  "pixel_avg data i =
     num_div (num_add (num_add (rd data i) (rd data (i + 1))) (rd data (i + 2))) (Some 3)"

function grayscale_loop :: "nat \<Rightarrow> byte list \<Rightarrow> byte list" where
  "grayscale_loop i data =
     (if i < length data
      then (let avg = pixel_avg data i;
                v = contrast avg
            in grayscale_loop (i + 4)
                 (data[i := toUint8Clamp v, i + 1 := toUint8Clamp v, i + 2 := toUint8Clamp v]))
      else data)"
  by pat_completeness auto
termination
  by (relation "measure (\<lambda>(i, data). length data - i)") auto

declare grayscale_loop.simps [simp del]

subsection \<open>Stage 2: sharpening\<close>

text \<open>
  \<open>side\<close> is \<^verbatim>\<open>Math.round(Math.sqrt(weights.length))\<close> and \<open>halfSide\<close> is
  \<^verbatim>\<open>Math.floor(side / 2)\<close>, for the nine weights. \<open>kernel_step\<close> is the body of the two
  inner loops, \<open>kernel_at\<close> the loops, \<open>put_pixel\<close> the four stores of one pixel,
  \<open>sharpen_row\<close> the loop over \<open>x\<close> and \<open>sharpen\<close> the loop over \<open>y\<close>, from the buffer that
  \<^verbatim>\<open>createImageData\<close> returns, all zero.
\<close>

definition weights :: "int list" where
  "weights = [0, -1, 0, -1, 5, -1, 0, -1, 0]"

definition side :: nat where "side = 3"
definition halfSide :: nat where "halfSide = 1"

definition kernel_step ::
  "nat \<Rightarrow> nat \<Rightarrow> byte list \<Rightarrow> nat \<Rightarrow> nat \<Rightarrow> nat \<Rightarrow> nat \<Rightarrow> num \<times> num \<times> num \<Rightarrow> num \<times> num \<times> num" where
  "kernel_step sw sh src sx sy cy cx acc =
     (let scy = int sy + int cy - int halfSide;
          scx = int sx + int cx - int halfSide
      in if scy \<ge> 0 \<and> scy < int sh \<and> scx \<ge> 0 \<and> scx < int sw
         then (let srcOff = nat ((scy * int sw + scx) * 4);
                   wt = Some (of_int (weights ! (cy * side + cx)))
               in case acc of (r, g, b) \<Rightarrow>
                    (num_add r (num_mul (rd src srcOff) wt),
                     num_add g (num_mul (rd src (srcOff + 1)) wt),
                     num_add b (num_mul (rd src (srcOff + 2)) wt)))
         else acc)"

definition kernel_at :: "nat \<Rightarrow> nat \<Rightarrow> byte list \<Rightarrow> nat \<Rightarrow> nat \<Rightarrow> num \<times> num \<times> num" where
  "kernel_at sw sh src sx sy =
     fold (\<lambda>cy acc. fold (\<lambda>cx acc. kernel_step sw sh src sx sy cy cx acc) [0..<side] acc)
       [0..<side] (Some 0, Some 0, Some 0)"

definition put_pixel :: "nat \<Rightarrow> num \<times> num \<times> num \<Rightarrow> byte list \<Rightarrow> byte list" where
  "put_pixel dstOff rgb dst =
     (case rgb of (r, g, b) \<Rightarrow>
        dst[dstOff := toUint8Clamp r, dstOff + 1 := toUint8Clamp g,
            dstOff + 2 := toUint8Clamp b, dstOff + 3 := 255])"

definition sharpen_row :: "nat \<Rightarrow> nat \<Rightarrow> byte list \<Rightarrow> nat \<Rightarrow> byte list \<Rightarrow> byte list" where
  "sharpen_row w h src y dst =
     fold (\<lambda>x dst. put_pixel ((y * w + x) * 4) (kernel_at w h src x y) dst) [0..<w] dst"

definition sharpen :: "nat \<Rightarrow> nat \<Rightarrow> byte list \<Rightarrow> byte list" where
  "sharpen w h src = fold (sharpen_row w h src) [0..<h] (replicate (4 * w * h) 0)"

text \<open>
  Between the two stages the buffer goes through the canvas: \<^verbatim>\<open>ctx.putImageData\<close> writes
  it and \<open>sharpen\<close> reads \<^verbatim>\<open>ctx.getImageData\<close> back. \<open>canvas buf\<close> is what the canvas
  returns for the buffer \<open>buf\<close>; the browser decides it.
\<close>

definition enhance ::
  "(byte list \<Rightarrow> byte list) \<Rightarrow> nat \<Rightarrow> nat \<Rightarrow> byte list \<Rightarrow> byte list" where
  "enhance canvas w h data = sharpen w h (canvas (grayscale_loop 0 data))"

text \<open>
  The convolution as the specification words it: the sum of kernel weight times source
  pixel over the neighbourhood, a neighbour outside the image contributing zero. The
  weights of the four corners are zero.
\<close>

definition px :: "nat \<Rightarrow> nat \<Rightarrow> byte list \<Rightarrow> int \<Rightarrow> int \<Rightarrow> nat \<Rightarrow> int" where
  "px w h src x y c =
     (if 0 \<le> x \<and> x < int w \<and> 0 \<le> y \<and> y < int h
      then int (unat (src ! (nat ((y * int w + x) * 4) + c))) else 0)"

definition conv :: "nat \<Rightarrow> nat \<Rightarrow> byte list \<Rightarrow> nat \<Rightarrow> nat \<Rightarrow> nat \<Rightarrow> int" where
  "conv w h src x y c =
     5 * px w h src (int x) (int y) c
       - px w h src (int x) (int y - 1) c - px w h src (int x - 1) (int y) c
       - px w h src (int x + 1) (int y) c - px w h src (int x) (int y + 1) c"

subsection \<open>The grayscale stage, pixel by pixel\<close>

lemma grayscale_loop_length: "length (grayscale_loop i data) = length data"
  by (induction i data rule: grayscale_loop.induct)
     (subst grayscale_loop.simps, simp add: Let_def)

lemma pixel_avg_update:
  "i + 4 \<le> j \<Longrightarrow> pixel_avg (data[i := a, i + 1 := b, i + 2 := c]) j = pixel_avg data j"
  by (simp add: pixel_avg_def rd_def)

lemma grayscale_loop_nth:
  "length data = 4 * n \<Longrightarrow> p < n \<Longrightarrow> k < 4 \<Longrightarrow>
     grayscale_loop (4 * q) data ! (4 * p + k) =
       (if p < q \<or> k = 3 then data ! (4 * p + k)
        else toUint8Clamp (contrast (pixel_avg data (4 * p))))"
proof (induction "n - q" arbitrary: q data)
  case 0
  then have "\<not> 4 * q < length data" and "p < q" by simp_all
  then show ?case by (simp add: grayscale_loop.simps [of "4 * q"])
next
  case (Suc m)
  define v where "v = toUint8Clamp (contrast (pixel_avg data (4 * q)))"
  define data' where "data' = data[4 * q := v, 4 * q + 1 := v, 4 * q + 2 := v]"
  from Suc have lt: "4 * q < length data" and m: "m = n - Suc q" by simp_all
  have len: "length data' = 4 * n" using Suc.prems by (simp add: data'_def)
  from lt have step: "grayscale_loop (4 * q) data = grayscale_loop (4 * Suc q) data'"
    by (subst grayscale_loop.simps) (simp add: Let_def data'_def v_def add.commute)
  note ih = Suc.hyps(1) [OF m len Suc.prems(2,3)]
  consider "p < q" | "p = q" | "q < p" by linarith
  then show ?case
  proof cases
    case 1
    then have "data' ! (4 * p + k) = data ! (4 * p + k)"
      using Suc.prems by (simp add: data'_def)
    with 1 step ih show ?thesis by simp
  next
    case 2
    with Suc.prems lt have "data' ! (4 * p + k) = (if k = 3 then data ! (4 * p + k) else v)"
      by (auto simp: data'_def nth_list_update)
    with 2 step ih show ?thesis by (simp add: v_def)
  next
    case 3
    then have "4 * q + 4 \<le> 4 * p" by simp
    then have "pixel_avg data' (4 * p) = pixel_avg data (4 * p)"
      unfolding data'_def by (rule pixel_avg_update)
    moreover from 3 have "data' ! (4 * p + k) = data ! (4 * p + k)"
      by (simp add: data'_def)
    ultimately show ?thesis using 3 step ih by auto
  qed
qed

lemma toUint8Clamp_low: "x \<le> 0 \<Longrightarrow> toUint8Clamp (Some x) = 0"
  by (simp add: toUint8Clamp_def max_def min_def)

lemma toUint8Clamp_high: "255 \<le> x \<Longrightarrow> toUint8Clamp (Some x) = 255"
  by (simp add: toUint8Clamp_def max_def min_def)

lemma toUint8Clamp_int:
  "toUint8Clamp (Some (of_int k)) = (if k \<le> 0 then 0 else if 255 \<le> k then 255 else word_of_int k)"
  by (simp add: toUint8Clamp_def max_def min_def)

lemma toUint8Clamp_round:
  assumes "0 \<le> x" and "x \<le> 255" and "x \<noteq> of_int \<lfloor>x\<rfloor> + 1 / 2"
  shows "toUint8Clamp (Some x) = word_of_int (round x)"
proof -
  from assms(1,2) have c: "min (max x 0) 255 = x" by (simp add: max_def min_def)
  show ?thesis
  proof (cases "x < of_int \<lfloor>x\<rfloor> + 1 / 2")
    case True
    have "\<lfloor>x + 1 / 2\<rfloor> = \<lfloor>x\<rfloor>"
      using True by (intro floor_unique) linarith+
    with True c show ?thesis by (simp add: toUint8Clamp_def round_def)
  next
    case False
    with assms(3) have gt: "of_int \<lfloor>x\<rfloor> + 1 / 2 < x" by simp
    have "\<lfloor>x + 1 / 2\<rfloor> = \<lfloor>x\<rfloor> + 1"
      using gt by (intro floor_unique) (simp, linarith)
    with gt False c show ?thesis by (simp add: toUint8Clamp_def round_def)
  qed
qed

lemma third_no_tie: "(of_nat s / 3 :: rat) \<noteq> of_int f + 1 / 2"
proof
  assume "(of_nat s / 3 :: rat) = of_int f + 1 / 2"
  then have "(of_int (2 * int s) :: rat) = of_int (6 * f + 3)"
    by (simp add: field_simps)
  then have "2 * int s = 6 * f + 3" by (simp only: of_int_eq_iff)
  then show False by presburger
qed

lemma pixel_avg_in_range:
  "i + 2 < length data \<Longrightarrow>
     pixel_avg data i
       = Some (of_nat (unat (data ! i) + unat (data ! (i + 1)) + unat (data ! (i + 2))) / 3)"
  by (simp add: pixel_avg_def rd_def num_add_def num_div_def)

lemma gray_value:
  fixes s :: nat
  defines "avg \<equiv> (of_nat s / 3 :: rat)"
  shows "toUint8Clamp (contrast (Some avg))
           = (if avg > 128 then 255 else if avg < 50 then 0 else word_of_int (round avg))"
proof -
  have "toUint8Clamp (Some avg) = word_of_int (round avg)" if "50 \<le> avg" "avg \<le> 128"
    using that third_no_tie [of s "\<lfloor>avg\<rfloor>"]
    by (intro toUint8Clamp_round) (simp_all add: avg_def)
  then show ?thesis
    by (simp add: contrast_def toUint8Clamp_low toUint8Clamp_high)
qed

text \<open>
  C7 (amended). In the first stage, for every pixel, with \<open>avg = (R + G + B) / 3\<close>, the
  three colour channels are set to 255 if \<open>avg > 128\<close>, to 0 if \<open>avg < 50\<close>, and otherwise
  to \<open>avg\<close> rounded to the nearest integer: the buffer holds bytes, and the store rounds.
  The alpha channel and the length of the buffer are unchanged.
\<close>

theorem grayscale_threshold:
  assumes "length data = 4 * n" and "p < n"
  shows "let out = grayscale_loop 0 data;
             avg = (of_nat (unat (data ! (4 * p)) + unat (data ! (4 * p + 1))
                      + unat (data ! (4 * p + 2))) / 3 :: rat);
             v = (if avg > 128 then 255 else if avg < 50 then 0 else word_of_int (round avg))
         in length out = length data \<and>
            out ! (4 * p) = v \<and> out ! (4 * p + 1) = v \<and> out ! (4 * p + 2) = v \<and>
            out ! (4 * p + 3) = data ! (4 * p + 3)"
proof -
  define s where "s = unat (data ! (4 * p)) + unat (data ! (4 * p + 1)) + unat (data ! (4 * p + 2))"
  define v :: byte where
    "v = (if (of_nat s / 3 :: rat) > 128 then 255 else if (of_nat s / 3 :: rat) < 50 then 0
          else word_of_int (round (of_nat s / 3 :: rat)))"
  from assms have r: "4 * p + 2 < length data" by simp
  have "pixel_avg data (4 * p) = Some (of_nat s / 3)"
    unfolding s_def by (rule pixel_avg_in_range [OF r])
  then have g: "toUint8Clamp (contrast (pixel_avg data (4 * p))) = v"
    by (simp only: gray_value v_def)
  have nth: "grayscale_loop 0 data ! (4 * p + k) =
       (if k = 3 then data ! (4 * p + k) else v)" if "k < 4" for k
    using grayscale_loop_nth [OF assms that, of 0] g by simp
  have "grayscale_loop 0 data ! (4 * p) = v" using nth [of 0] by simp
  moreover have "grayscale_loop 0 data ! (4 * p + 1) = v" using nth [of 1] by simp
  moreover have "grayscale_loop 0 data ! (4 * p + 2) = v" using nth [of 2] by simp
  moreover have "grayscale_loop 0 data ! (4 * p + 3) = data ! (4 * p + 3)"
    using nth [of 3] by simp
  moreover have "length (grayscale_loop 0 data) = length data"
    by (rule grayscale_loop_length)
  ultimately show ?thesis
    unfolding Let_def s_def [symmetric] v_def [symmetric] by blast
qed

theorem grayscale_threshold_witness:
  "grayscale_loop 0 [100, 100, 101, 7, 200, 10, 10, 255] ! 0 = 100 \<and>
   grayscale_loop 0 [100, 100, 101, 7, 200, 10, 10, 255] ! 3 = 7 \<and>
   grayscale_loop 0 [100, 100, 101, 7, 200, 10, 10, 255] ! 4 = 73"
proof -
  let ?d = "[100, 100, 101, 7, 200, 10, 10, 255] :: byte list"
  have l: "length ?d = 4 * 2" by simp
  have a: "round (301 / 3 :: rat) = 100" and b: "round (220 / 3 :: rat) = 73"
    by (simp_all add: round_def floor_unique)
  from grayscale_threshold [OF l, of 0] grayscale_threshold [OF l, of 1] a b
  show ?thesis by (simp add: Let_def)
qed

text \<open>
  The claim as worded fails on the pixel (100, 100, 101): its average is 301/3, a mid-tone,
  and the channels are set to 100, which is not the average.
\<close>

theorem grayscale_threshold_counterexample:
  "grayscale_loop 0 [100, 100, 101, 255] = [100, 100, 100, 255] \<and>
   (of_nat (100 + 100 + 101) / 3 :: rat) < 128 \<and>
   (50 :: rat) < of_nat (100 + 100 + 101) / 3 \<and>
   (of_nat (unat (grayscale_loop 0 [100, 100, 101, 255] ! 0)) :: rat)
     \<noteq> of_nat (100 + 100 + 101) / 3"
proof -
  have "grayscale_loop 0 [100, 100, 101, 255] = [100, 100, 100, 255]"
    by code_simp
  then show ?thesis by simp
qed

subsection \<open>The sharpening stage, pixel by pixel\<close>

lemma put_pixel_length: "length (put_pixel off rgb dst) = length dst"
  by (cases rgb) (simp add: put_pixel_def)

lemma put_pixel_other:
  "j < off \<or> off + 4 \<le> j \<Longrightarrow> put_pixel off rgb dst ! j = dst ! j"
  by (cases rgb) (auto simp: put_pixel_def)

lemma put_pixel_nth:
  "off + 3 < length dst \<Longrightarrow> c < 4 \<Longrightarrow>
     put_pixel off (r, g, b) dst ! (off + c)
       = [toUint8Clamp r, toUint8Clamp g, toUint8Clamp b, 255] ! c"
proof -
  assume a: "off + 3 < length dst" and "c < 4"
  then consider "c = 0" | "c = 1" | "c = 2" | "c = 3" by linarith
  then show ?thesis using a by cases (simp_all add: put_pixel_def)
qed

lemma row_prefix_length:
  "length (fold (\<lambda>x dst. put_pixel (f x) (K x) dst) xs dst) = length dst"
  by (induction xs arbitrary: dst) (simp_all add: put_pixel_length)

lemma row_prefix_other:
  "j < (y * w) * 4 \<or> (y * w + n) * 4 \<le> j \<Longrightarrow>
     fold (\<lambda>x dst. put_pixel ((y * w + x) * 4) (K x) dst) [0..<n] dst ! j = dst ! j"
proof (induction n)
  case 0
  show ?case by simp
next
  case (Suc n)
  from Suc.prems have "j < (y * w + n) * 4 \<or> (y * w + n) * 4 + 4 \<le> j" by auto
  from put_pixel_other [OF this] Suc show ?case by auto
qed

lemma row_prefix_hit:
  "x < n \<Longrightarrow> c < 4 \<Longrightarrow> (y * w + x) * 4 + 3 < length dst \<Longrightarrow>
     fold (\<lambda>x dst. put_pixel ((y * w + x) * 4) (K x) dst) [0..<n] dst ! ((y * w + x) * 4 + c)
       = (case K x of (r, g, b) \<Rightarrow> [toUint8Clamp r, toUint8Clamp g, toUint8Clamp b, 255] ! c)"
proof (induction n)
  case 0
  then show ?case by simp
next
  case (Suc n)
  let ?prev = "fold (\<lambda>x dst. put_pixel ((y * w + x) * 4) (K x) dst) [0..<n] dst"
  have len: "length ?prev = length dst" by (rule row_prefix_length)
  show ?case
  proof (cases "x = n")
    case True
    obtain r g b where k: "K n = (r, g, b)" by (cases "K n")
    from Suc.prems len True have "(y * w + n) * 4 + 3 < length ?prev" by simp
    from put_pixel_nth [OF this Suc.prems(2), of r g b] True k show ?thesis by simp
  next
    case False
    with Suc.prems have x: "x < n" by simp
    with Suc.prems have "(y * w + x) * 4 + c < (y * w + n) * 4" by simp
    then have "put_pixel ((y * w + n) * 4) (K n) ?prev ! ((y * w + x) * 4 + c)
        = ?prev ! ((y * w + x) * 4 + c)"
      by (intro put_pixel_other) simp
    with Suc.IH [OF x Suc.prems(2,3)] show ?thesis by simp
  qed
qed

lemma sharpen_row_length: "length (sharpen_row w h src y dst) = length dst"
  unfolding sharpen_row_def by (rule row_prefix_length)

lemma sharpen_row_other:
  "j < (y * w) * 4 \<or> (y * w + w) * 4 \<le> j \<Longrightarrow> sharpen_row w h src y dst ! j = dst ! j"
  unfolding sharpen_row_def by (rule row_prefix_other)

lemma sharpen_row_hit:
  "x < w \<Longrightarrow> c < 4 \<Longrightarrow> (y * w + x) * 4 + 3 < length dst \<Longrightarrow>
     sharpen_row w h src y dst ! ((y * w + x) * 4 + c)
       = (case kernel_at w h src x y of
            (r, g, b) \<Rightarrow> [toUint8Clamp r, toUint8Clamp g, toUint8Clamp b, 255] ! c)"
  unfolding sharpen_row_def by (rule row_prefix_hit)

lemma rows_length: "length (fold (sharpen_row w h src) ys dst) = length dst"
  by (induction ys arbitrary: dst) (simp_all add: sharpen_row_length)

lemma rows_hit:
  "y < m \<Longrightarrow> x < w \<Longrightarrow> c < 4 \<Longrightarrow> (y * w + x) * 4 + 3 < length dst \<Longrightarrow>
     fold (sharpen_row w h src) [0..<m] dst ! ((y * w + x) * 4 + c)
       = (case kernel_at w h src x y of
            (r, g, b) \<Rightarrow> [toUint8Clamp r, toUint8Clamp g, toUint8Clamp b, 255] ! c)"
proof (induction m)
  case 0
  then show ?case by simp
next
  case (Suc m)
  let ?prev = "fold (sharpen_row w h src) [0..<m] dst"
  have len: "length ?prev = length dst" by (rule rows_length)
  show ?case
  proof (cases "y = m")
    case True
    from Suc.prems len have "(y * w + x) * 4 + 3 < length ?prev" by simp
    from sharpen_row_hit [OF Suc.prems(2,3) this, of h src] True
    show ?thesis by simp
  next
    case False
    with Suc.prems have y: "y < m" by simp
    then have "Suc y * w \<le> m * w" by (intro mult_le_mono1) simp
    with Suc.prems have "(y * w + x) * 4 + c < (m * w) * 4" by simp
    then have "sharpen_row w h src m ?prev ! ((y * w + x) * 4 + c)
        = ?prev ! ((y * w + x) * 4 + c)"
      by (intro sharpen_row_other) simp
    with Suc.IH [OF y Suc.prems(2,3,4)] show ?thesis by simp
  qed
qed

lemma pixel_in_image:
  fixes x y w h :: nat
  assumes x: "x < w" and y: "y < h"
  shows "(y * w + x) * 4 + 3 < 4 * w * h"
proof -
  from y have "Suc y * w \<le> h * w" by (intro mult_le_mono1) simp
  with x have "y * w + x < w * h" by (simp add: mult.commute)
  then show ?thesis by simp
qed

lemma sharpen_length: "length (sharpen w h src) = 4 * w * h"
  by (simp add: sharpen_def rows_length)

lemma sharpen_nth:
  assumes "x < w" and "y < h" and "c < 4"
  shows "sharpen w h src ! ((y * w + x) * 4 + c)
       = (case kernel_at w h src x y of
            (r, g, b) \<Rightarrow> [toUint8Clamp r, toUint8Clamp g, toUint8Clamp b, 255] ! c)"
proof -
  from pixel_in_image [OF assms(1,2)]
  have "(y * w + x) * 4 + 3 < length (replicate (4 * w * h) (0 :: byte))" by simp
  from rows_hit [OF assms(2,1,3) this] show ?thesis by (simp add: sharpen_def)
qed

lemma src_offset:
  assumes "0 \<le> sx" and "sx < int w" and "0 \<le> sy" and "sy < int h"
  shows "nat ((sy * int w + sx) * 4) + 3 < 4 * w * h"
proof -
  from assms obtain x y where sx: "sx = int x" and sy: "sy = int y"
    using nonneg_int_cases by metis
  with assms have "x < w" and "y < h" by simp_all
  from pixel_in_image [OF this] have "(y * w + x) * 4 + 3 < 4 * w * h" .
  moreover have "nat ((sy * int w + sx) * 4) = (y * w + x) * 4"
    unfolding sx sy by (simp add: nat_mult_distrib nat_add_distrib)
  ultimately show ?thesis by simp
qed

lemma kernel_step_conv:
  assumes len: "length src = 4 * w * h"
  shows "kernel_step w h src x y cy cx (Some (of_int a), Some (of_int b), Some (of_int c))
     = (Some (of_int (a + weights ! (cy * side + cx)
                            * px w h src (int x + int cx - 1) (int y + int cy - 1) 0)),
        Some (of_int (b + weights ! (cy * side + cx)
                            * px w h src (int x + int cx - 1) (int y + int cy - 1) 1)),
        Some (of_int (c + weights ! (cy * side + cx)
                            * px w h src (int x + int cx - 1) (int y + int cy - 1) 2)))"
proof (cases "0 \<le> int x + int cx - 1 \<and> int x + int cx - 1 < int w \<and>
              0 \<le> int y + int cy - 1 \<and> int y + int cy - 1 < int h")
  case True
  then have "nat (((int y + int cy - 1) * int w + (int x + int cx - 1)) * 4) + 3 < length src"
    unfolding len by (intro src_offset) simp_all
  with True show ?thesis
    by (simp add: kernel_step_def halfSide_def Let_def rd_def num_add_def num_mul_def px_def
        mult.commute)
next
  case False
  then show ?thesis
    by (auto simp: kernel_step_def halfSide_def Let_def px_def)
qed

lemma kernel_row_conv:
  assumes len: "length src = 4 * w * h"
  shows "fold (\<lambda>cx acc. kernel_step w h src x y cy cx acc) cxs
           (Some (of_int a), Some (of_int b), Some (of_int c))
     = (Some (of_int (a + (\<Sum>cx\<leftarrow>cxs. weights ! (cy * side + cx)
                            * px w h src (int x + int cx - 1) (int y + int cy - 1) 0))),
        Some (of_int (b + (\<Sum>cx\<leftarrow>cxs. weights ! (cy * side + cx)
                            * px w h src (int x + int cx - 1) (int y + int cy - 1) 1))),
        Some (of_int (c + (\<Sum>cx\<leftarrow>cxs. weights ! (cy * side + cx)
                            * px w h src (int x + int cx - 1) (int y + int cy - 1) 2))))"
proof (induction cxs arbitrary: a b c)
  case Nil
  show ?case by simp
next
  case (Cons cx cxs)
  show ?case
    by (simp only: fold_simps o_apply kernel_step_conv [OF len] Cons.IH sum_list.Cons
        list.map add.assoc)
qed

lemma kernel_rows_conv:
  assumes len: "length src = 4 * w * h"
  shows "fold (\<lambda>cy acc. fold (\<lambda>cx acc. kernel_step w h src x y cy cx acc) cxs acc) cys
           (Some (of_int a), Some (of_int b), Some (of_int c))
     = (Some (of_int (a + (\<Sum>cy\<leftarrow>cys. \<Sum>cx\<leftarrow>cxs. weights ! (cy * side + cx)
                            * px w h src (int x + int cx - 1) (int y + int cy - 1) 0))),
        Some (of_int (b + (\<Sum>cy\<leftarrow>cys. \<Sum>cx\<leftarrow>cxs. weights ! (cy * side + cx)
                            * px w h src (int x + int cx - 1) (int y + int cy - 1) 1))),
        Some (of_int (c + (\<Sum>cy\<leftarrow>cys. \<Sum>cx\<leftarrow>cxs. weights ! (cy * side + cx)
                            * px w h src (int x + int cx - 1) (int y + int cy - 1) 2))))"
proof (induction cys arbitrary: a b c)
  case Nil
  show ?case by simp
next
  case (Cons cy cys)
  show ?case
    by (simp only: fold_simps o_apply kernel_row_conv [OF len] Cons.IH sum_list.Cons
        list.map add.assoc)
qed

lemma upt_3: "[0..<3] = [0, 1, 2]"
  by (simp add: upt_rec)

lemma kernel_at_conv:
  assumes len: "length src = 4 * w * h"
  shows "kernel_at w h src x y
     = (Some (of_int (conv w h src x y 0)), Some (of_int (conv w h src x y 1)),
        Some (of_int (conv w h src x y 2)))"
proof -
  have "kernel_at w h src x y
      = fold (\<lambda>cy acc. fold (\<lambda>cx acc. kernel_step w h src x y cy cx acc) [0, 1, 2] acc)
          [0, 1, 2] (Some (of_int 0), Some (of_int 0), Some (of_int 0))"
    by (simp add: kernel_at_def side_def upt_3)
  also note kernel_rows_conv [OF len]
  finally show ?thesis
    by (simp add: conv_def weights_def side_def add.commute)
qed

text \<open>
  C10. For a source buffer of \<open>w\<close> by \<open>h\<close> pixels and every pixel of the output, each colour
  channel is the weighted sum of the convolution stored through the clamped byte store: 0
  for a sum below 0, 255 for a sum above 255, the sum itself in between; the alpha
  channel is 255. The output has the size of the input.
\<close>

theorem sharpen_clamps:
  assumes "length src = 4 * w * h" and "x < w" and "y < h"
  shows "let dst = sharpen w h src; off = (y * w + x) * 4;
             clamp = (\<lambda>s :: int. if s < 0 then 0 else if 255 < s then 255 else word_of_int s)
         in length dst = 4 * w * h \<and>
            dst ! off = clamp (conv w h src x y 0) \<and>
            dst ! (off + 1) = clamp (conv w h src x y 1) \<and>
            dst ! (off + 2) = clamp (conv w h src x y 2) \<and>
            dst ! (off + 3) = 255"
proof -
  have c: "toUint8Clamp (Some (of_int k))
      = (if k < 0 then 0 else if 255 < k then 255 else word_of_int k)" for k
    by (auto simp: toUint8Clamp_int)
  have nth: "sharpen w h src ! ((y * w + x) * 4 + k)
      = [toUint8Clamp (Some (of_int (conv w h src x y 0))),
         toUint8Clamp (Some (of_int (conv w h src x y 1))),
         toUint8Clamp (Some (of_int (conv w h src x y 2))), 255] ! k" if "k < 4" for k
    using sharpen_nth [OF assms(2,3) that, of src] by (simp add: kernel_at_conv [OF assms(1)])
  from nth [of 0] nth [of 1] nth [of 2] nth [of 3] show ?thesis
    by (simp add: Let_def sharpen_length c)
qed

theorem sharpen_clamps_witness:
  "sharpen 2 2 [100, 100, 100, 255, 0, 0, 0, 255, 255, 255, 255, 255, 60, 70, 80, 255] ! 4 = 0 \<and>
   sharpen 2 2 [100, 100, 100, 255, 0, 0, 0, 255, 255, 255, 255, 255, 60, 70, 80, 255] ! 8 = 255 \<and>
   sharpen 2 2 [100, 100, 100, 255, 0, 0, 0, 255, 255, 255, 255, 255, 60, 70, 80, 255] ! 12 = 45 \<and>
   sharpen 2 2 [100, 100, 100, 255, 0, 0, 0, 255, 255, 255, 255, 255, 60, 70, 80, 255] ! 15 = 255"
proof -
  let ?src = "[100, 100, 100, 255, 0, 0, 0, 255, 255, 255, 255, 255, 60, 70, 80, 255] :: byte list"
  have l: "length ?src = 4 * 2 * 2" by simp
  have "conv 2 2 ?src 1 0 0 = -160" and "conv 2 2 ?src 0 1 0 = 1115"
    and "conv 2 2 ?src 1 1 0 = 45"
    by (simp_all add: conv_def px_def)
  with sharpen_clamps [OF l, of 1 0] sharpen_clamps [OF l, of 0 1] sharpen_clamps [OF l, of 1 1]
  show ?thesis by (simp add: Let_def)
qed

subsection \<open>A uniform image through both stages\<close>




definition through_alpha :: "byte \<Rightarrow> byte \<Rightarrow> byte" where
  "through_alpha c a =
     (if a = 0 then 0
      else (let stored = (2 * unat c * unat a + 255) div 510
            in of_nat (min 255 ((2 * stored * 255 + unat a) div (2 * unat a)))))"

fun premultiplied_canvas :: "byte list \<Rightarrow> byte list" where
  "premultiplied_canvas (r # g # b # a # rest) =
     through_alpha r a # through_alpha g a # through_alpha b a # a # premultiplied_canvas rest"
| "premultiplied_canvas rest = rest"



















section \<open>Recognition adapter (services/ocrService: performOCR)\<close>

text \<open>
  A value that is thrown, or that a promise is rejected with, is a string, an \<^verbatim>\<open>Error\<close>
  with its message, or an event object of the browser. \<open>message\<close> is the property
  \<^verbatim>\<open>.message\<close>: only an \<^verbatim>\<open>Error\<close> has one; on a string and on an event it is
  \<^verbatim>\<open>undefined\<close>.
\<close>

datatype js_value = JSString string | JSError string | JSEvent

fun message :: "js_value \<Rightarrow> string option" where
  "message (JSError m) = Some m"
| "message (JSString s) = None"
| "message JSEvent = None"

text \<open>
  \<^verbatim>\<open>Tesseract\<close> is declared outside the repository. What the engine does during one call
  is given: whether \<^verbatim>\<open>createWorker\<close> rejects, the messages it hands to the logger until
  the call ends, what \<^verbatim>\<open>worker.recognize\<close> resolves to or rejects with, and whether
  \<^verbatim>\<open>worker.terminate\<close> rejects; each of these promises settles. The logger is installed
  with the call of \<^verbatim>\<open>createWorker\<close>, so it forwards the messages with the status
  \<open>recognizing text\<close> on every path, also when \<^verbatim>\<open>createWorker\<close> rejects after it has
  logged. The state is the number of workers that are alive. \<open>performOCR\<close> returns the
  arguments of its calls to \<^verbatim>\<open>onProgress\<close>, its result (\<open>Inl\<close> what it throws) and the
  state. A worker is alive from the \<^verbatim>\<open>createWorker\<close> that resolved to a
  \<^verbatim>\<open>terminate\<close> that resolved.
\<close>

record engine_run =
  createWorker :: "js_value option"
  logged :: "(string \<times> rat) list"
  recognize :: "js_value + string"
  terminate :: "js_value option"

definition performOCR :: "engine_run \<Rightarrow> nat \<Rightarrow> rat list \<times> (js_value + string) \<times> nat" where
  "performOCR e live =
     (let onProgress = map snd (filter (\<lambda>m. fst m = ''recognizing text'') (logged e))
      in case createWorker e of
           Some cause \<Rightarrow>
             (onProgress, Inl (JSError ''Failed to extract text from image''), live)
         | None \<Rightarrow>
             (case recognize e of
                Inl cause \<Rightarrow>
                  (onProgress, Inl (JSError ''Failed to extract text from image''), Suc live)
              | Inr text \<Rightarrow>
                  (case terminate e of
                     Some cause \<Rightarrow>
                       (onProgress, Inl (JSError ''Failed to extract text from image''), Suc live)
                   | None \<Rightarrow> (onProgress, Inr text, live))))"

subsection \<open>The recognition adapter: result and release\<close>

text \<open>
  C9. What \<open>performOCR\<close> does with the worker and with an error, on every behaviour of
  the engine. An error that the adapter throws is always the one \<^verbatim>\<open>Error\<close> with the message
  \<open>Failed to extract text from image\<close>: the cause is logged and not passed on. When the
  worker is created, the recognition resolves and \<^verbatim>\<open>terminate\<close> resolves, the text is
  returned and no worker is left alive. When the worker is created and the recognition
  rejects, the call ends with one more worker alive than before it: the
  \<^verbatim>\<open>catch\<close> block does not terminate the worker, so the release that the claim asks
  for on failure does not happen.
\<close>

theorem performOCR_release:
  "(case fst (snd (performOCR e live)) of
      Inl err \<Rightarrow> err = JSError ''Failed to extract text from image''
    | Inr text \<Rightarrow> recognize e = Inr text) \<and>
   (createWorker e = None \<and> recognize e = Inr text \<and> terminate e = None \<longrightarrow>
      fst (snd (performOCR e live)) = Inr text \<and> snd (snd (performOCR e live)) = live) \<and>
   (createWorker e = None \<and> recognize e = Inl cause \<longrightarrow>
      snd (snd (performOCR e live)) = Suc live)"
  by (auto simp: performOCR_def Let_def split: option.splits sum.splits)

theorem performOCR_release_witness:
  "performOCR \<lparr>createWorker = None, logged = [(''loading'', 1), (''recognizing text'', 1 / 2)],
                recognize = Inl JSEvent, terminate = None\<rparr> 0
     = ([1 / 2], Inl (JSError ''Failed to extract text from image''), 1) \<and>
   snd (snd (performOCR \<lparr>createWorker = None,
                logged = [(''loading'', 1), (''recognizing text'', 1 / 2)],
                recognize = Inl JSEvent, terminate = None\<rparr> 0)) = Suc 0"
proof -
  let ?e = "\<lparr>createWorker = None, logged = [(''loading'', 1), (''recognizing text'', 1 / 2 :: rat)],
                recognize = Inl JSEvent, terminate = None\<rparr>"
  have c: "createWorker ?e = None \<and> recognize ?e = Inl JSEvent" by simp
  with performOCR_release [of ?e 0 "[]" JSEvent]
  have "snd (snd (performOCR ?e 0)) = Suc 0" by blast
  moreover have "performOCR ?e 0 = ([1 / 2], Inl (JSError ''Failed to extract text from image''), 1)"
    by (simp add: performOCR_def)
  ultimately show ?thesis by simp
qed

section \<open>Job orchestrator (App: handleFileUpload)\<close>

text \<open>
  The steps of \<^verbatim>\<open>preprocessImage\<close> that can fail are given with the file: whether the
  \<^verbatim>\<open>FileReader\<close> reads it, and what the image decodes to (width, height and the pixels
  that \<^verbatim>\<open>getImageData\<close> returns after \<^verbatim>\<open>drawImage\<close>), if it does. The browser gives
  the rest: whether the canvas has a 2D context, whether \<^verbatim>\<open>getImageData\<close> returns for a
  canvas of a given width and height, what it returns for a buffer that
  \<^verbatim>\<open>putImageData\<close> stored, the PNG encoder \<^verbatim>\<open>toDataURL\<close>, the engine's behaviour on an
  image, \<^verbatim>\<open>URL.createObjectURL\<close>, the identifiers that
  \<^verbatim>\<open>Math.random().toString(36).substr(2, 9)\<close> yields, by the index of the call, and the
  product of two numbers in double precision.

  The promise of \<^verbatim>\<open>preprocessImage\<close> has three outcomes. It is rejected by the two
  \<^verbatim>\<open>onerror\<close> handlers and by the check of the context, and resolved at the end of
  \<^verbatim>\<open>img.onload\<close>. \<^verbatim>\<open>getImageData\<close> throws when the width or the height is 0 and when
  the canvas cannot be read at its size; the exception leaves the event handler
  \<^verbatim>\<open>img.onload\<close>, which no \<^verbatim>\<open>try\<close> surrounds, so neither \<^verbatim>\<open>resolve\<close> nor
  \<^verbatim>\<open>reject\<close> is ever called and the promise stays unsettled.

  \<^verbatim>\<open>handleFileUpload\<close> awaits every step of a job before the next statement, so its
  run is a sequence of calls of \<^verbatim>\<open>setResults\<close>, each with a function from the previous
  list of results to the next. \<open>update\<close> names the four functions of the source,
  \<open>setResults\<close> applies one, \<open>process_file\<close> is the body of the loop as the list of the
  updates it issues, the number of live workers after it, and whether it ends: it does
  not when the promise of \<^verbatim>\<open>preprocessImage\<close> stays unsettled, and then the
  \<^verbatim>\<open>await\<close> never returns and the loop issues no further update, for this job or
  for a later one. \<open>handleFileUpload\<close> returns the list of all the states of
  \<^verbatim>\<open>results\<close> in the order in which they are published. The progress that is stored is
  \<^verbatim>\<open>Math.round\<close> of the product in double precision; \<^verbatim>\<open>Math.round\<close> rounds a half
  upwards, as \<open>round\<close> does. The flag \<^verbatim>\<open>isProcessing\<close>, which no claim reads, is left
  out.
\<close>

datatype status = Pending | Processing | Completed | Error

record ProcessingResult =
  ident :: string
  fileName :: string
  status :: status
  progress :: int
  rawText :: "string option"
  numbers :: "string list"
  error :: "string option"
  previewUrl :: string

record File =
  name :: string
  readable :: bool
  image :: "(nat \<times> nat \<times> byte list) option"

record browser =
  canvas_context :: bool
  canvas_fits :: "nat \<Rightarrow> nat \<Rightarrow> bool"
  canvas_readback :: "byte list \<Rightarrow> byte list"
  toDataURL :: "nat \<Rightarrow> nat \<Rightarrow> byte list \<Rightarrow> string"
  engine :: "string \<Rightarrow> engine_run"
  createObjectURL :: "File \<Rightarrow> string"
  random_id :: "nat \<Rightarrow> string"
  double_mul :: "rat \<Rightarrow> rat \<Rightarrow> rat"

datatype promise = Resolved string | Rejected js_value | Unsettled

definition MAX_FILES :: nat where "MAX_FILES = 20"

definition preprocessImage :: "browser \<Rightarrow> File \<Rightarrow> promise" where
  "preprocessImage env file =
     (if \<not> readable file then Rejected JSEvent
      else case image file of
             None \<Rightarrow> Rejected JSEvent
           | Some (w, h, data) \<Rightarrow>
               if \<not> canvas_context env then Rejected (JSString ''Could not get canvas context'')
               else if w = 0 \<or> h = 0 \<or> \<not> canvas_fits env w h then Unsettled
               else Resolved (toDataURL env w h (enhance (canvas_readback env) w h data)))"

datatype update =
    SetProcessing string
  | SetProgress string int
  | SetCompleted string string "string list"
  | SetError string "string option"

fun change :: "update \<Rightarrow> ProcessingResult \<Rightarrow> ProcessingResult" where
  "change (SetProcessing rid) r = r\<lparr>status := Processing\<rparr>"
| "change (SetProgress rid p) r = r\<lparr>progress := p\<rparr>"
| "change (SetCompleted rid text nums) r =
     r\<lparr>status := Completed, progress := 100, rawText := Some text, numbers := nums\<rparr>"
| "change (SetError rid msg) r = r\<lparr>status := Error, error := msg\<rparr>"

fun target :: "update \<Rightarrow> string" where
  "target (SetProcessing rid) = rid"
| "target (SetProgress rid p) = rid"
| "target (SetCompleted rid text nums) = rid"
| "target (SetError rid msg) = rid"

definition setResults :: "update \<Rightarrow> ProcessingResult list \<Rightarrow> ProcessingResult list" where
  "setResults u prev = map (\<lambda>r. if ident r = target u then change u r else r) prev"

definition process_file ::
  "browser \<Rightarrow> File \<Rightarrow> string \<Rightarrow> nat \<Rightarrow> update list \<times> nat \<times> bool" where
  "process_file env file resultId live =
     (case preprocessImage env file of
        Unsettled \<Rightarrow> ([SetProcessing resultId], live, False)
      | Rejected err \<Rightarrow>
          ([SetProcessing resultId, SetError resultId (message err)], live, True)
      | Resolved processedDataUrl \<Rightarrow>
          (case performOCR (engine env processedDataUrl) live of
             (ps, res, live') \<Rightarrow>
               (SetProcessing resultId
                  # map (\<lambda>p. SetProgress resultId (round (double_mul env p 100))) ps
                  @ [case res of
                       Inl err \<Rightarrow> SetError resultId (message err)
                     | Inr text \<Rightarrow> SetCompleted resultId text (extractIndianNumbers text)],
                live', True)))"

fun publish :: "update list \<Rightarrow> ProcessingResult list \<Rightarrow> ProcessingResult list list" where
  "publish [] prev = []"
| "publish (u # us) prev = setResults u prev # publish us (setResults u prev)"

fun run_jobs ::
  "browser \<Rightarrow> (File \<times> string) list \<Rightarrow> ProcessingResult list \<Rightarrow> nat \<Rightarrow> ProcessingResult list list" where
  "run_jobs env [] prev live = []"
| "run_jobs env ((file, resultId) # jobs) prev live =
     (case process_file env file resultId live of
        (ups, live', ended) \<Rightarrow>
          publish ups prev
            @ (if ended then run_jobs env jobs (last (prev # publish ups prev)) live' else []))"

definition initialResults :: "browser \<Rightarrow> File list \<Rightarrow> ProcessingResult list" where
  "initialResults env files =
     map (\<lambda>(i, file).
            \<lparr>ident = random_id env i, fileName = name file, status = Pending, progress = 0,
             rawText = None, numbers = [], error = None,
             previewUrl = createObjectURL env file\<rparr>)
       (enumerate 0 files)"

definition handleFileUpload :: "browser \<Rightarrow> File list \<Rightarrow> ProcessingResult list list" where
  "handleFileUpload env input =
     (let files = take MAX_FILES input
      in if files = [] then []
         else initialResults env files
                # run_jobs env (zip files (map ident (initialResults env files)))
                    (initialResults env files) 0)"

subsection \<open>The orchestrator: one update, one job, the batch\<close>

lemma change_ident [simp]: "ident (change u r) = ident r"
  by (cases u) simp_all

lemma change_fileName [simp]: "fileName (change u r) = fileName r"
  by (cases u) simp_all

lemma setResults_length [simp]: "length (setResults u rs) = length rs"
  by (simp add: setResults_def)

lemma setResults_ident [simp]: "map ident (setResults u rs) = map ident rs"
  by (simp add: setResults_def)

lemma setResults_fileName [simp]: "map fileName (setResults u rs) = map fileName rs"
  by (simp add: setResults_def)

lemma setResults_nth:
  assumes d: "distinct (map ident rs)" and k: "k < length rs" and t: "target u = ident (rs ! k)"
  shows "setResults u rs = rs[k := change u (rs ! k)]"
proof (rule nth_equalityI)
  show "length (setResults u rs) = length (rs[k := change u (rs ! k)])" by simp
next
  fix i assume "i < length (setResults u rs)"
  then have i: "i < length rs" by simp
  have "ident (rs ! i) = ident (rs ! k) \<longleftrightarrow> i = k"
    using d i k nth_eq_iff_index_eq [of "map ident rs" i k] by simp
  with i k t show "setResults u rs ! i = rs[k := change u (rs ! k)] ! i"
    by (simp add: setResults_def nth_list_update)
qed

lemma publish_states:
  assumes d: "distinct (map ident rs)" and k: "k < length rs"
  shows "\<forall>u \<in> set ups. target u = ident (rs ! k) \<Longrightarrow> s \<in> set (publish ups rs) \<Longrightarrow>
         \<exists>r'. s = rs[k := r']"
  using d k
proof (induction ups arbitrary: rs)
  case Nil
  then show ?case by simp
next
  case (Cons u ups)
  from Cons.prems have t: "target u = ident (rs ! k)" by simp
  note step = setResults_nth [OF Cons.prems(3,4) t]
  from Cons.prems(2) consider "s = setResults u rs" | "s \<in> set (publish ups (setResults u rs))"
    by auto
  then show ?case
  proof cases
    case 1
    with step show ?thesis by blast
  next
    case 2
    let ?rs = "rs[k := change u (rs ! k)]"
    have d': "distinct (map ident ?rs)" and k': "k < length ?rs"
      using Cons.prems(3,4) step setResults_ident [of u rs] by simp_all
    have "\<forall>u \<in> set ups. target u = ident (?rs ! k)"
      using Cons.prems(1,4) by simp
    from Cons.IH [OF this _ d' k'] 2 step obtain r' where "s = ?rs[k := r']" by auto
    then show ?thesis by (auto simp: list_update_overwrite)
  qed
qed

lemma publish_last:
  assumes d: "distinct (map ident rs)" and k: "k < length rs"
  shows "\<forall>u \<in> set ups. target u = ident (rs ! k) \<Longrightarrow>
         last (rs # publish ups rs) = rs[k := foldl (\<lambda>r u. change u r) (rs ! k) ups]"
  using d k
proof (induction ups arbitrary: rs)
  case Nil
  then show ?case by simp
next
  case (Cons u ups)
  from Cons.prems have t: "target u = ident (rs ! k)" by simp
  note step = setResults_nth [OF Cons.prems(2,3) t]
  let ?rs = "rs[k := change u (rs ! k)]"
  have d': "distinct (map ident ?rs)" and k': "k < length ?rs"
    using Cons.prems(2,3) step setResults_ident [of u rs] by simp_all
  have "\<forall>u \<in> set ups. target u = ident (?rs ! k)"
    using Cons.prems(1,3) by simp
  from Cons.IH [OF this d' k'] step Cons.prems(3) show ?case
    by (simp add: list_update_overwrite)
qed

lemma foldl_change_ident [simp]: "ident (foldl (\<lambda>r u. change u r) r ups) = ident r"
  by (induction ups arbitrary: r) simp_all

lemma foldl_change_fileName [simp]: "fileName (foldl (\<lambda>r u. change u r) r ups) = fileName r"
  by (induction ups arbitrary: r) simp_all

lemma foldl_progress:
  "foldl (\<lambda>r u. change u r) r (map (\<lambda>p. SetProgress rid (f p)) ps)
     = r\<lparr>progress := (if ps = [] then progress r else f (last ps))\<rparr>"
  by (induction ps arbitrary: r) simp_all

lemma performOCR_live:
  "fst (performOCR e live) = fst (performOCR e 0) \<and>
   fst (snd (performOCR e live)) = fst (snd (performOCR e 0))"
  by (simp add: performOCR_def Let_def split: option.splits sum.splits)

lemma performOCR_error:
  "fst (snd (performOCR e live)) = Inl err \<Longrightarrow> err = JSError ''Failed to extract text from image''"
  by (auto simp: performOCR_def Let_def split: option.splits sum.splits)

lemma process_file_live:
  "fst (process_file env file rid live) = fst (process_file env file rid 0)"
proof (cases "preprocessImage env file")
  case (Resolved url)
  obtain ps res l where a: "performOCR (engine env url) live = (ps, res, l)"
    by (cases "performOCR (engine env url) live")
  obtain ps' res' l' where b: "performOCR (engine env url) 0 = (ps', res', l')"
    by (cases "performOCR (engine env url) 0")
  from performOCR_live [of "engine env url" live] a b have "ps = ps'" and "res = res'"
    by simp_all
  with Resolved a b show ?thesis by (simp add: process_file_def)
next
  case (Rejected err)
  then show ?thesis by (simp add: process_file_def)
next
  case Unsettled
  then show ?thesis by (simp add: process_file_def)
qed

lemma process_file_ended:
  "snd (snd (process_file env fl rid live)) = (preprocessImage env fl \<noteq> Unsettled)"
  by (simp add: process_file_def split: promise.splits prod.splits)

lemma process_file_targets:
  "u \<in> set (fst (process_file env file rid live)) \<Longrightarrow> target u = rid"
  by (auto simp: process_file_def split: promise.splits sum.splits prod.splits)

lemma job_final:
  fixes r :: ProcessingResult and env :: browser and fl :: File and rid :: string and live :: nat
  defines "r' \<equiv> foldl (\<lambda>r u. change u r) r (fst (process_file env fl rid live))"
  shows "case preprocessImage env fl of
           Unsettled \<Rightarrow> r' = r\<lparr>status := Processing\<rparr>
         | Rejected err \<Rightarrow> status r' = Error \<and> error r' = message err \<and>
                           rawText r' = rawText r \<and> numbers r' = numbers r
         | Resolved url \<Rightarrow>
             (case fst (snd (performOCR (engine env url) 0)) of
                Inl err \<Rightarrow> status r' = Error \<and>
                           error r' = Some ''Failed to extract text from image'' \<and>
                           rawText r' = rawText r \<and> numbers r' = numbers r
              | Inr text \<Rightarrow> status r' = Completed \<and> progress r' = 100 \<and>
                            rawText r' = Some text \<and>
                            numbers r' = extractIndianNumbers text \<and> error r' = error r)"
proof (cases "preprocessImage env fl")
  case Unsettled
  then show ?thesis by (simp add: r'_def process_file_def)
next
  case (Rejected err)
  then show ?thesis by (simp add: r'_def process_file_def)
next
  case (Resolved url)
  obtain ps res l where a: "performOCR (engine env url) live = (ps, res, l)"
    by (cases "performOCR (engine env url) live")
  with performOCR_live [of "engine env url" live]
  have res: "fst (snd (performOCR (engine env url) 0)) = res" by simp
  show ?thesis
  proof (cases res)
    case (Inl err)
    with res performOCR_error [of "engine env url" 0 err]
    have "err = JSError ''Failed to extract text from image''" by simp
    with Inl Resolved a res show ?thesis
      by (simp add: r'_def process_file_def foldl_progress)
  next
    case (Inr tx)
    with Resolved a res show ?thesis
      by (simp add: r'_def process_file_def foldl_progress)
  qed
qed

lemma job_final_status:
  assumes "preprocessImage env file \<noteq> Unsettled"
  shows "status (foldl (\<lambda>r u. change u r) r (fst (process_file env file rid live))) = Completed \<or>
         status (foldl (\<lambda>r u. change u r) r (fst (process_file env file rid live))) = Error"
  using job_final [of r env "file" rid live] assms by (auto split: promise.splits sum.splits)

text \<open>
  \<open>job_done env file r\<close> is the record of a job after all the updates of its own run.
\<close>

definition job_done :: "browser \<Rightarrow> File \<Rightarrow> ProcessingResult \<Rightarrow> ProcessingResult" where
  "job_done env fl r = foldl (\<lambda>r u. change u r) r (fst (process_file env fl (ident r) 0))"

lemma last_append_Cons: "last (x # xs @ ys) = last (last (x # xs) # ys)"
  by (cases ys) simp_all

lemma run_jobs_step:
  assumes d: "distinct (map ident rs)" and k: "k < length rs" and rid: "rid = ident (rs ! k)"
  shows "last (rs # publish (fst (process_file env fl rid live)) rs)
           = rs[k := job_done env fl (rs ! k)]"
proof -
  have "\<forall>u \<in> set (fst (process_file env fl rid live)). target u = ident (rs ! k)"
    using process_file_targets [of _ env fl rid live] rid by blast
  from publish_last [OF d k this] show ?thesis
    by (simp add: job_done_def rid process_file_live [of env fl _ live])
qed

lemma job_done_ident [simp]: "ident (job_done env fl r) = ident r"
  by (simp add: job_done_def)

lemma job_done_fileName [simp]: "fileName (job_done env fl r) = fileName r"
  by (simp add: job_done_def)

lemma job_done_status:
  "preprocessImage env fl \<noteq> Unsettled \<Longrightarrow>
     status (job_done env fl r) = Completed \<or> status (job_done env fl r) = Error"
  unfolding job_done_def by (rule job_final_status)

lemma map_ident_update:
  "k < length rs \<Longrightarrow> map ident (rs[k := job_done env fl (rs ! k)]) = map ident rs"
  by (simp add: map_update list_update_same_conv)

text \<open>
  The last state of a run of the loop from the \<open>k\<close>-th job on: a job behind one that does
  not end is left as it was, and every other job of the run is in the state in which
  its own updates leave it.
\<close>

lemma run_jobs_last:
  assumes "distinct (map ident rs)" and "k + length jobs = length rs"
    and "map snd jobs = drop k (map ident rs)"
  shows "length (last (rs # run_jobs env jobs rs live)) = length rs \<and>
         (\<forall>i < length rs. last (rs # run_jobs env jobs rs live) ! i
             = (if i < k \<or> (\<exists>j < i - k. preprocessImage env (fst (jobs ! j)) = Unsettled)
                then rs ! i else job_done env (fst (jobs ! (i - k))) (rs ! i)))"
  using assms
proof (induction jobs arbitrary: k rs live)
  case Nil
  then show ?case by simp
next
  case (Cons job jobs)
  obtain fl rid where job: "job = (fl, rid)" by (cases job)
  obtain ups live' ended where pf: "process_file env fl rid live = (ups, live', ended)"
    by (cases "process_file env fl rid live")
  from process_file_ended [of env fl rid live] pf
  have ended: "ended = (preprocessImage env fl \<noteq> Unsettled)" by simp
  from Cons.prems(2) have k: "k < length rs" by simp
  with Cons.prems(3) job have rid: "rid = ident (rs ! k)"
    by (simp add: drop_map Cons_nth_drop_Suc [symmetric])
  let ?rs = "rs[k := job_done env fl (rs ! k)]"
  from run_jobs_step [OF Cons.prems(1) k rid, of env fl live] pf
  have step: "last (rs # publish ups rs) = ?rs" by simp
  show ?case
  proof (cases ended)
    case True
    have ids: "map ident ?rs = map ident rs" by (rule map_ident_update [OF k])
    have d': "distinct (map ident ?rs)" using Cons.prems(1) ids by simp
    have l': "Suc k + length jobs = length ?rs" using Cons.prems(2) by simp
    have s': "map snd jobs = drop (Suc k) (map ident ?rs)"
      using Cons.prems(3) k ids by (simp add: drop_map Cons_nth_drop_Suc [symmetric])
    have run: "last (rs # run_jobs env (job # jobs) rs live)
        = last (?rs # run_jobs env jobs ?rs live')"
      using job pf step True by (simp add: last_append_Cons del: last.simps)
    from Cons.IH [OF d' l' s', of live'] have
      len: "length (last (?rs # run_jobs env jobs ?rs live')) = length rs" and
      nth: "\<forall>i < length rs. last (?rs # run_jobs env jobs ?rs live') ! i
               = (if i < Suc k \<or> (\<exists>j < i - Suc k. preprocessImage env (fst (jobs ! j)) = Unsettled)
                  then ?rs ! i else job_done env (fst (jobs ! (i - Suc k))) (?rs ! i))"
      by simp_all
    show ?thesis
    proof (intro conjI allI impI)
      show "length (last (rs # run_jobs env (job # jobs) rs live)) = length rs"
        using run len by simp
    next
      fix i assume i: "i < length rs"
      consider "i < k" | "i = k" | "k < i" by linarith
      then show "last (rs # run_jobs env (job # jobs) rs live) ! i
          = (if i < k \<or> (\<exists>j < i - k. preprocessImage env (fst ((job # jobs) ! j)) = Unsettled)
             then rs ! i else job_done env (fst ((job # jobs) ! (i - k))) (rs ! i))"
      proof cases
        case 1
        with nth i run show ?thesis by simp
      next
        case 2
        with nth i run k job show ?thesis by simp
      next
        case 3
        then obtain m where m: "i - k = Suc m" and m': "i - Suc k = m"
          by (cases "i - k") simp_all
        from True ended job
        have "(\<exists>j < Suc m. preprocessImage env (fst ((job # jobs) ! j)) = Unsettled)
            = (\<exists>j < m. preprocessImage env (fst (jobs ! j)) = Unsettled)"
          by (simp add: Ex_less_Suc2)
        moreover from 3 have "\<not> i < Suc k" and "\<not> i < k" and "?rs ! i = rs ! i" by simp_all
        moreover from m have "(job # jobs) ! (i - k) = jobs ! m" by simp
        moreover note nth [rule_format, OF i]
        ultimately show ?thesis unfolding run m m' by (simp only: if_False simp_thms)
      qed
    qed
  next
    case False
    have run: "last (rs # run_jobs env (job # jobs) rs live) = ?rs"
      using job pf step False by simp
    show ?thesis
    proof (intro conjI allI impI)
      show "length (last (rs # run_jobs env (job # jobs) rs live)) = length rs"
        using run by simp
    next
      fix i assume i: "i < length rs"
      consider "i < k" | "i = k" | "k < i" by linarith
      then show "last (rs # run_jobs env (job # jobs) rs live) ! i
          = (if i < k \<or> (\<exists>j < i - k. preprocessImage env (fst ((job # jobs) ! j)) = Unsettled)
             then rs ! i else job_done env (fst ((job # jobs) ! (i - k))) (rs ! i))"
      proof cases
        case 1
        with run show ?thesis by simp
      next
        case 2
        with run k job show ?thesis by simp
      next
        case 3
        from False ended job
        have "preprocessImage env (fst ((job # jobs) ! 0)) = Unsettled" by simp
        with 3 have "\<exists>j < i - k. preprocessImage env (fst ((job # jobs) ! j)) = Unsettled"
          by (intro exI [of _ 0]) simp
        with 3 run show ?thesis by simp
      qed
    qed
  qed
qed

text \<open>
  \<open>at_job k rs\<close>: in the state \<open>rs\<close> every job before the \<open>k\<close>-th is completed or failed and
  every job after it is pending. Every published state is of this shape for some \<open>k\<close>.
\<close>

definition terminal :: "ProcessingResult \<Rightarrow> bool" where
  "terminal r = (status r = Completed \<or> status r = Error)"

definition at_job :: "nat \<Rightarrow> ProcessingResult list \<Rightarrow> bool" where
  "at_job k rs =
     ((\<forall>i < length rs. i < k \<longrightarrow> terminal (rs ! i)) \<and>
      (\<forall>i < length rs. k < i \<longrightarrow> status (rs ! i) = Pending))"

lemma at_job_update: "at_job k rs \<Longrightarrow> at_job k (rs[k := r'])"
  by (simp add: at_job_def nth_list_update)

lemma at_job_next:
  "at_job k rs \<Longrightarrow> preprocessImage env fl \<noteq> Unsettled \<Longrightarrow>
     at_job (Suc k) (rs[k := job_done env fl (rs ! k)])"
  using job_done_status [of env fl "rs ! k"]
  by (auto simp: at_job_def nth_list_update terminal_def less_Suc_eq)

lemma publish_fileName:
  "s \<in> set (publish ups rs) \<Longrightarrow> map fileName s = map fileName rs"
proof (induction ups arbitrary: rs)
  case Nil
  then show ?case by simp
next
  case (Cons u ups)
  from Cons.prems consider "s = setResults u rs" | "s \<in> set (publish ups (setResults u rs))"
    by auto
  then show ?case
  proof cases
    case 1
    then show ?thesis by simp
  next
    case 2
    from Cons.IH [OF 2] show ?thesis by simp
  qed
qed

lemma run_jobs_states:
  assumes "distinct (map ident rs)" and "k + length jobs = length rs"
    and "map snd jobs = drop k (map ident rs)" and "at_job k rs"
    and "s \<in> set (run_jobs env jobs rs live)"
  shows "\<exists>j. at_job j s \<and> length s = length rs \<and> map fileName s = map fileName rs"
  using assms
proof (induction jobs arbitrary: k rs live)
  case Nil
  then show ?case by simp
next
  case (Cons job jobs)
  obtain fl rid where job: "job = (fl, rid)" by (cases job)
  obtain ups live' ended where pf: "process_file env fl rid live = (ups, live', ended)"
    by (cases "process_file env fl rid live")
  from process_file_ended [of env fl rid live] pf
  have ended: "ended = (preprocessImage env fl \<noteq> Unsettled)" by simp
  from Cons.prems(2) have k: "k < length rs" by simp
  with Cons.prems(3) job have rid: "rid = ident (rs ! k)"
    by (simp add: drop_map Cons_nth_drop_Suc [symmetric])
  let ?rs = "rs[k := job_done env fl (rs ! k)]"
  from run_jobs_step [OF Cons.prems(1) k rid, of env fl live] pf
  have step: "last (rs # publish ups rs) = ?rs" by simp
  have targets: "\<forall>u \<in> set ups. target u = ident (rs ! k)"
    using process_file_targets [of _ env fl rid live] rid pf by simp
  from Cons.prems(5) job pf step
  consider "s \<in> set (publish ups rs)" | "ended" and "s \<in> set (run_jobs env jobs ?rs live')"
    by (auto split: if_splits)
  then show ?case
  proof cases
    case 1
    from publish_states [OF Cons.prems(1) k targets 1] obtain r' where s: "s = rs[k := r']" ..
    have "map fileName s = map fileName rs" by (rule publish_fileName [OF 1])
    with s at_job_update [OF Cons.prems(4), of r'] show ?thesis by auto
  next
    case 2
    have ids: "map ident ?rs = map ident rs" by (rule map_ident_update [OF k])
    have d': "distinct (map ident ?rs)" using Cons.prems(1) ids by simp
    have l': "Suc k + length jobs = length ?rs" using Cons.prems(2) by simp
    have s': "map snd jobs = drop (Suc k) (map ident ?rs)"
      using Cons.prems(3) k ids by (simp add: drop_map Cons_nth_drop_Suc [symmetric])
    from 2(1) ended have "preprocessImage env fl \<noteq> Unsettled" by simp
    then have a': "at_job (Suc k) ?rs" by (rule at_job_next [OF Cons.prems(4)])
    have f: "map fileName ?rs = map fileName rs"
      using k by (simp add: map_update list_update_same_conv)
    from Cons.IH [OF d' l' s' a' 2(2)] f show ?thesis by simp
  qed
qed

lemma initialResults_length [simp]: "length (initialResults env files) = length files"
  by (simp add: initialResults_def)

lemma initialResults_nth:
  "i < length files \<Longrightarrow>
     initialResults env files ! i
       = \<lparr>ident = random_id env i, fileName = name (files ! i), status = Pending, progress = 0,
          rawText = None, numbers = [], error = None,
          previewUrl = createObjectURL env (files ! i)\<rparr>"
  by (simp add: initialResults_def nth_enumerate_eq)

lemma initialResults_ident:
  "map ident (initialResults env files) = map (random_id env) [0..<length files]"
  by (rule nth_equalityI) (simp_all add: initialResults_nth)

lemma initialResults_fileName: "map fileName (initialResults env files) = map name files"
  by (rule nth_equalityI) (simp_all add: initialResults_nth)

lemma initialResults_at_job: "at_job 0 (initialResults env files)"
  by (simp add: at_job_def initialResults_nth)

lemma filter_at_most_one:
  assumes "\<forall>i < length xs. i \<noteq> j \<longrightarrow> \<not> P (xs ! i)"
  shows "length (filter P xs) \<le> 1"
proof (cases "j < length xs")
  case False
  with assms have "\<forall>x \<in> set xs. \<not> P x" by (auto simp: in_set_conv_nth)
  then have "filter P xs = []" by (simp add: filter_empty_conv)
  then show ?thesis by simp
next
  case True
  have a: "filter P (take j xs) = []"
    using assms True by (auto simp: filter_empty_conv in_set_conv_nth)
  have b: "filter P (drop (Suc j) xs) = []"
    using assms True by (auto simp: filter_empty_conv in_set_conv_nth)
  from True have "xs = take j xs @ xs ! j # drop (Suc j) xs" by (rule id_take_nth_drop)
  then have "filter P xs = filter P (take j xs @ xs ! j # drop (Suc j) xs)" by simp
  with a b show ?thesis by (simp del: append_take_drop_id)
qed

lemma at_job_order:
  assumes "at_job k rs" and "j < length rs" and "status (rs ! j) \<noteq> Pending" and "i < j"
  shows "status (rs ! i) = Completed \<or> status (rs ! i) = Error"
proof -
  from assms(1,2,3) have "\<not> k < j" by (auto simp: at_job_def)
  with assms(4) have "i < k" by simp
  with assms(1,2,4) show ?thesis by (auto simp: at_job_def terminal_def)
qed

lemma at_job_one_processing:
  assumes "at_job k rs"
  shows "length (filter (\<lambda>r. status r = Processing) rs) \<le> 1"
proof (rule filter_at_most_one [of _ k])
  show "\<forall>i < length rs. i \<noteq> k \<longrightarrow> \<not> status (rs ! i) = Processing"
  proof (intro allI impI)
    fix i assume "i < length rs" and "i \<noteq> k"
    with assms have "terminal (rs ! i) \<or> status (rs ! i) = Pending"
      by (cases "i < k") (auto simp: at_job_def)
    then show "\<not> status (rs ! i) = Processing" by (auto simp: terminal_def)
  qed
qed

lemma upload_trace:
  assumes "take MAX_FILES input \<noteq> []"
  shows "handleFileUpload env input
           = initialResults env (take MAX_FILES input)
               # run_jobs env (zip (take MAX_FILES input)
                                 (map ident (initialResults env (take MAX_FILES input))))
                   (initialResults env (take MAX_FILES input)) 0"
  using assms by (simp add: handleFileUpload_def Let_def)

lemma upload_states:
  assumes d: "distinct (map (random_id env) [0..<length (take MAX_FILES input)])"
    and s: "s \<in> set (handleFileUpload env input)"
  shows "\<exists>j. at_job j s \<and> length s = length (take MAX_FILES input) \<and>
             map fileName s = map name (take MAX_FILES input)"
proof -
  let ?files = "take MAX_FILES input"
  let ?init = "initialResults env ?files"
  have ne: "?files \<noteq> []"
  proof
    assume "?files = []"
    then have "handleFileUpload env input = []" by (simp add: handleFileUpload_def)
    with s show False by simp
  qed
  from s upload_trace [OF ne, of env]
  consider "s = ?init" | "s \<in> set (run_jobs env (zip ?files (map ident ?init)) ?init 0)"
    by auto
  then show ?thesis
  proof cases
    case 1
    with initialResults_at_job [of env ?files] show ?thesis
      by (auto simp: initialResults_fileName)
  next
    case 2
    have d': "distinct (map ident ?init)" using d by (simp add: initialResults_ident)
    have l: "0 + length (zip ?files (map ident ?init)) = length ?init" by simp
    have m: "map snd (zip ?files (map ident ?init)) = drop 0 (map ident ?init)" by simp
    from run_jobs_states [OF d' l m initialResults_at_job 2] show ?thesis
      by (simp add: initialResults_fileName)
  qed
qed

text \<open>
  The last state of a batch with distinct identifiers: a job behind one whose
  enhancement does not settle is as it was enqueued, and every other job is in the state
  in which its own updates leave it.
\<close>

lemma upload_final:
  assumes d: "distinct (map (random_id env) [0..<length (take MAX_FILES input)])"
    and k: "k < length (take MAX_FILES input)"
  shows "length (last (handleFileUpload env input)) = length (take MAX_FILES input) \<and>
         last (handleFileUpload env input) ! k
           = (if \<exists>j < k. preprocessImage env (input ! j) = Unsettled
              then initialResults env (take MAX_FILES input) ! k
              else job_done env (input ! k) (initialResults env (take MAX_FILES input) ! k))"
proof -
  let ?files = "take MAX_FILES input"
  let ?init = "initialResults env ?files"
  let ?jobs = "zip ?files (map ident ?init)"
  from k have ne: "?files \<noteq> []" by auto
  have d': "distinct (map ident ?init)" using d by (simp add: initialResults_ident)
  have l: "0 + length ?jobs = length ?init" by simp
  have m: "map snd ?jobs = drop 0 (map ident ?init)" by simp
  have f: "fst (?jobs ! j) = input ! j" if "j \<le> k" for j
    using that k by simp
  have e: "(\<exists>j < k. preprocessImage env (fst (?jobs ! j)) = Unsettled)
      = (\<exists>j < k. preprocessImage env (input ! j) = Unsettled)"
    using f by auto
  note fin = run_jobs_last [OF d' l m, of env 0]
  from k have k': "k < length ?init" by simp
  from fin have len: "length (last (?init # run_jobs env ?jobs ?init 0)) = length ?init" ..
  from conjunct2 [OF fin, rule_format, OF k'] e f [of k]
  have "last (?init # run_jobs env ?jobs ?init 0) ! k
      = (if \<exists>j < k. preprocessImage env (input ! j) = Unsettled then ?init ! k
         else job_done env (input ! k) (?init ! k))"
    by auto
  with len upload_trace [OF ne, of env] show ?thesis by simp
qed

subsection \<open>Batches of files\<close>

text \<open>
  A browser in which every image is recognised as \<open>tel 9876543210\<close>, with a canvas of
  premultiplied colour that can be read up to 4096 by 4096 pixels. The engine reports
  the progress values 1/2 and 1, whose products with 100 are exact in double precision.
  The files are one that decodes to an image of one pixel, one that is not an image, and
  one that decodes to an image of width and height 0.
\<close>

definition test_browser :: browser where
  "test_browser =
     \<lparr>canvas_context = True,
      canvas_fits = (\<lambda>w h. w \<le> 4096 \<and> h \<le> 4096),
      canvas_readback = premultiplied_canvas,
      toDataURL = (\<lambda>w h data. ''data:image/png;base64''),
      engine = (\<lambda>url. \<lparr>createWorker = None,
                         logged = [(''loading'', 1), (''recognizing text'', 1 / 2),
                                   (''recognizing text'', 1)],
                         recognize = Inr ''tel 9876543210'', terminate = None\<rparr>),
      createObjectURL = (\<lambda>f. ''blob:'' @ name f),
      random_id = (\<lambda>i. replicate (Suc i) CHR ''a''),
      double_mul = (\<lambda>a b. a * b)\<rparr>"

definition png_file :: File where
  "png_file = \<lparr>name = ''a.png'', readable = True, image = Some (1, 1, [90, 90, 90, 255])\<rparr>"

definition text_file :: File where
  "text_file = \<lparr>name = ''b.txt'', readable = True, image = None\<rparr>"

definition empty_file :: File where
  "empty_file = \<lparr>name = ''c.svg'', readable = True, image = Some (0, 0, [])\<rparr>"

text \<open>
  The same browser when \<^verbatim>\<open>Math.random\<close> returns 0.5 at every call: every identifier is
  \<open>i\<close>, the digits of 0.5 in base 36 after the point.
\<close>

definition colliding_browser :: browser where
  "colliding_browser = test_browser\<lparr>random_id := (\<lambda>i. ''i'')\<rparr>"

text \<open>
  C2. For a batch of N files, N at most \<open>MAX_FILES\<close>, whose jobs get pairwise distinct
  identifiers: every published state of the results has exactly N jobs, in the order of
  the files; in every state, a job that is no longer pending has only completed or failed
  jobs before it, so a job starts only after the one before it has reached a terminal
  state, and jobs start in submission order; in every state at most one job is
  processing; the first state has every job pending; and when the enhancement of every
  file settles, the last state has every job completed or failed.
\<close>

theorem sequential_processing:
  assumes "length input \<le> MAX_FILES"
    and "distinct (map (random_id env) [0..<length input])"
  shows "(\<forall>rs \<in> set (handleFileUpload env input).
            length rs = length input \<and> map fileName rs = map name input \<and>
            (\<forall>j < length rs. status (rs ! j) \<noteq> Pending \<longrightarrow>
               (\<forall>i < j. status (rs ! i) = Completed \<or> status (rs ! i) = Error)) \<and>
            length (filter (\<lambda>r. status r = Processing) rs) \<le> 1) \<and>
         (input \<noteq> [] \<longrightarrow>
            (\<forall>r \<in> set (hd (handleFileUpload env input)). status r = Pending)) \<and>
         (input \<noteq> [] \<and> (\<forall>f \<in> set input. preprocessImage env f \<noteq> Unsettled) \<longrightarrow>
            (\<forall>r \<in> set (last (handleFileUpload env input)).
               status r = Completed \<or> status r = Error))"
proof -
  from assms(1) have t: "take MAX_FILES input = input" by simp
  with assms(2) have d: "distinct (map (random_id env) [0..<length (take MAX_FILES input)])"
    by simp
  have states: "length rs = length input \<and> map fileName rs = map name input \<and>
            (\<forall>j < length rs. status (rs ! j) \<noteq> Pending \<longrightarrow>
               (\<forall>i < j. status (rs ! i) = Completed \<or> status (rs ! i) = Error)) \<and>
            length (filter (\<lambda>r. status r = Processing) rs) \<le> 1"
    if "rs \<in> set (handleFileUpload env input)" for rs
  proof -
    from upload_states [OF d that] t obtain j where j: "at_job j rs"
      and l: "length rs = length input" and f: "map fileName rs = map name input"
      by auto
    from at_job_order [OF j] at_job_one_processing [OF j] l f show ?thesis by blast
  qed
  have first: "\<forall>r \<in> set (hd (handleFileUpload env input)). status r = Pending"
    if ne: "input \<noteq> []"
  proof -
    from ne t have "take MAX_FILES input \<noteq> []" by simp
    from upload_trace [OF this, of env] t
    have "hd (handleFileUpload env input) = initialResults env input" by simp
    then show ?thesis by (auto simp: in_set_conv_nth initialResults_nth)
  qed
  have final: "\<forall>r \<in> set (last (handleFileUpload env input)).
               status r = Completed \<or> status r = Error"
    if ne: "input \<noteq> []" and settle: "\<forall>f \<in> set input. preprocessImage env f \<noteq> Unsettled"
  proof
    fix r assume "r \<in> set (last (handleFileUpload env input))"
    then obtain k where k: "k < length (last (handleFileUpload env input))"
      and r: "r = last (handleFileUpload env input) ! k"
      by (auto simp: in_set_conv_nth)
    from ne t have "0 < length (take MAX_FILES input)" by simp
    from upload_final [OF d this] k t have k': "k < length input" by simp
    with t have "k < length (take MAX_FILES input)" by simp
    note fin = upload_final [OF d this]
    from settle k' have none: "\<not> (\<exists>j < k. preprocessImage env (input ! j) = Unsettled)"
      by auto
    from settle k' have "preprocessImage env (input ! k) \<noteq> Unsettled" by simp
    from job_done_status [OF this] fin none r
    show "status r = Completed \<or> status r = Error" by simp
  qed
  from states first final show ?thesis by blast
qed

theorem sequential_processing_witness:
  "map (map status) (handleFileUpload test_browser [png_file, text_file, png_file])
     = [[Pending, Pending, Pending],
        [Processing, Pending, Pending], [Processing, Pending, Pending],
        [Processing, Pending, Pending], [Completed, Pending, Pending],
        [Completed, Processing, Pending], [Completed, Error, Pending],
        [Completed, Error, Processing], [Completed, Error, Processing],
        [Completed, Error, Processing], [Completed, Error, Completed]] \<and>
   length (handleFileUpload test_browser [png_file, text_file, png_file] ! 5) = 3 \<and>
   length (filter (\<lambda>r. status r = Processing)
             (handleFileUpload test_browser [png_file, text_file, png_file] ! 5)) \<le> 1 \<and>
   set (map status (last (handleFileUpload test_browser [png_file, text_file, png_file])))
     \<subseteq> {Completed, Error}"
proof -
  let ?input = "[png_file, text_file, png_file]"
  let ?tr = "handleFileUpload test_browser ?input"
  have e: "map (map status) ?tr
     = [[Pending, Pending, Pending],
        [Processing, Pending, Pending], [Processing, Pending, Pending],
        [Processing, Pending, Pending], [Completed, Pending, Pending],
        [Completed, Processing, Pending], [Completed, Error, Pending],
        [Completed, Error, Processing], [Completed, Error, Processing],
        [Completed, Error, Processing], [Completed, Error, Completed]]"
    by code_simp
  then have "length (map (map status) ?tr) = 11" by simp
  then have m: "?tr ! 5 \<in> set ?tr" by (intro nth_mem) simp
  have l: "length ?input \<le> MAX_FILES" by (simp add: MAX_FILES_def)
  have d: "distinct (map (random_id test_browser) [0..<length ?input])"
    by code_simp
  have "preprocessImage test_browser png_file \<noteq> Unsettled"
    by (simp add: preprocessImage_def png_file_def test_browser_def)
  moreover have "preprocessImage test_browser text_file \<noteq> Unsettled"
    by (simp add: preprocessImage_def text_file_def)
  ultimately have s: "?input \<noteq> [] \<and> (\<forall>f \<in> set ?input. preprocessImage test_browser f \<noteq> Unsettled)"
    by simp
  note all = sequential_processing [OF l d]
  from all m have "length (?tr ! 5) = length ?input \<and>
      length (filter (\<lambda>r. status r = Processing) (?tr ! 5)) \<le> 1"
    by blast
  moreover from all s have "\<forall>r \<in> set (last ?tr). status r = Completed \<or> status r = Error"
    by blast
  then have "set (map status (last ?tr)) \<subseteq> {Completed, Error}" by auto
  ultimately show ?thesis using e by simp
qed

text \<open>
  The hypothesis on the identifiers is needed, and the program does not establish it:
  the identifiers are drawn from \<^verbatim>\<open>Math.random\<close> and every update is applied to all the
  jobs that carry the identifier. When two files of a batch get the same identifier, the
  first update of the first job puts both jobs in processing, and the first update of
  the second job puts both jobs, which were completed, back in processing.
\<close>

theorem sequential_processing_counterexample:
  "length [png_file, png_file] \<le> MAX_FILES \<and>
   map (map status) (handleFileUpload colliding_browser [png_file, png_file])
     = [[Pending, Pending],
        [Processing, Processing], [Processing, Processing],
        [Processing, Processing], [Completed, Completed],
        [Processing, Processing], [Processing, Processing],
        [Processing, Processing], [Completed, Completed]] \<and>
   length (filter (\<lambda>r. status r = Processing)
             (handleFileUpload colliding_browser [png_file, png_file] ! 1)) = 2"
proof -
  have "length [png_file, png_file] \<le> MAX_FILES" by (simp add: MAX_FILES_def)
  moreover have "map (map status) (handleFileUpload colliding_browser [png_file, png_file])
     = [[Pending, Pending],
        [Processing, Processing], [Processing, Processing],
        [Processing, Processing], [Completed, Completed],
        [Processing, Processing], [Processing, Processing],
        [Processing, Processing], [Completed, Completed]]"
    by code_simp
  moreover have "length (filter (\<lambda>r. status r = Processing)
             (handleFileUpload colliding_browser [png_file, png_file] ! 1)) = 2"
    by code_simp
  ultimately show ?thesis by simp
qed

lemma preprocessImage_message: "preprocessImage env fl = Rejected err \<Longrightarrow> message err = None"
  by (auto simp: preprocessImage_def split: if_splits option.splits)

text \<open>
  C3. In a batch with distinct identifiers, the last state of a job is decided by its
  own file, whatever the outcome of the jobs before it, as long as each of them ends: it
  is failed when the enhancer rejects, failed with the reason
  \<open>Failed to extract text from image\<close> when the recognition fails, and completed with the
  recognised text and the numbers extracted from it otherwise. So a failure neither
  aborts nor skips the jobs behind it. When the enhancer rejects, the job is failed but
  its reason is not set: \<^verbatim>\<open>preprocessImage\<close> rejects with a string or with an event of
  the browser, and \<^verbatim>\<open>error.message\<close> of these is \<^verbatim>\<open>undefined\<close>. When the promise of the
  enhancer stays unsettled, the job is left processing, without a reason, and every job
  behind it is left pending.
\<close>

theorem job_outcome:
  assumes "distinct (map (random_id env) [0..<length (take MAX_FILES input)])"
    and "k < length (take MAX_FILES input)"
  shows "let r = last (handleFileUpload env input) ! k
         in if \<exists>j < k. preprocessImage env (input ! j) = Unsettled
            then status r = Pending \<and> error r = None \<and> rawText r = None \<and> numbers r = []
            else case preprocessImage env (input ! k) of
              Unsettled \<Rightarrow>
                status r = Processing \<and> error r = None \<and> rawText r = None \<and> numbers r = []
            | Rejected err \<Rightarrow>
                status r = Error \<and> error r = None \<and> rawText r = None \<and> numbers r = []
            | Resolved url \<Rightarrow>
                (case fst (snd (performOCR (engine env url) 0)) of
                   Inl err \<Rightarrow> status r = Error \<and>
                              error r = Some ''Failed to extract text from image'' \<and>
                              rawText r = None \<and> numbers r = []
                 | Inr text \<Rightarrow> status r = Completed \<and> progress r = 100 \<and>
                               rawText r = Some text \<and>
                               numbers r = extractIndianNumbers text \<and> error r = None)"
proof -
  let ?init = "initialResults env (take MAX_FILES input) ! k"
  note fin = upload_final [OF assms]
  have i: "status ?init = Pending" "rawText ?init = None" "numbers ?init = []"
    "error ?init = None"
    using assms(2) by (simp_all add: initialResults_nth)
  show ?thesis
  proof (cases "\<exists>j < k. preprocessImage env (input ! j) = Unsettled")
    case True
    with fin i show ?thesis by (simp add: Let_def)
  next
    case False
    with fin have r: "last (handleFileUpload env input) ! k = job_done env (input ! k) ?init"
      by simp
    from job_final [of ?init env "input ! k" "ident ?init" 0] i
      preprocessImage_message [of env "input ! k"] False
    show ?thesis
      unfolding Let_def r job_done_def by (auto split: promise.splits sum.splits)
  qed
qed

theorem job_outcome_witness:
  "status (last (handleFileUpload test_browser [png_file, text_file, png_file]) ! 0) = Completed \<and>
   numbers (last (handleFileUpload test_browser [png_file, text_file, png_file]) ! 0)
     = [''919876543210''] \<and>
   status (last (handleFileUpload test_browser [png_file, text_file, png_file]) ! 1) = Error \<and>
   error (last (handleFileUpload test_browser [png_file, text_file, png_file]) ! 1) = None \<and>
   status (last (handleFileUpload test_browser [png_file, text_file, png_file]) ! 2) = Completed \<and>
   status (last (handleFileUpload test_browser [png_file, empty_file, png_file]) ! 1) = Processing \<and>
   status (last (handleFileUpload test_browser [png_file, empty_file, png_file]) ! 2) = Pending"
proof -
  let ?input = "[png_file, text_file, png_file]"
  let ?hangs = "[png_file, empty_file, png_file]"
  have t: "take MAX_FILES ?input = ?input" "take MAX_FILES ?hangs = ?hangs"
    by (simp_all add: MAX_FILES_def)
  have d: "distinct (map (random_id test_browser) [0..<length (take MAX_FILES ?input)])"
    unfolding t by code_simp
  have d': "distinct (map (random_id test_browser) [0..<length (take MAX_FILES ?hangs)])"
    unfolding t by code_simp
  have good: "preprocessImage test_browser png_file = Resolved ''data:image/png;base64''"
    by (simp add: preprocessImage_def png_file_def test_browser_def)
  have bad: "preprocessImage test_browser text_file = Rejected JSEvent"
    by (simp add: preprocessImage_def text_file_def)
  have hang: "preprocessImage test_browser empty_file = Unsettled"
    by (simp add: preprocessImage_def empty_file_def test_browser_def)
  have ocr: "fst (snd (performOCR (engine test_browser ''data:image/png;base64'') 0))
      = Inr ''tel 9876543210''"
    by (simp add: performOCR_def test_browser_def)
  have n: "extractIndianNumbers ''tel 9876543210'' = [''919876543210'']" by code_simp
  have a: "\<not> (\<exists>j < 1. preprocessImage test_browser (?hangs ! j) = Unsettled)"
    using good by simp
  have b: "\<exists>j < 2. preprocessImage test_browser (?hangs ! j) = Unsettled"
    using hang by (intro exI [of _ 1]) simp
  have c: "\<not> (\<exists>j < k. preprocessImage test_browser (?input ! j) = Unsettled)"
    if "k \<le> 2" for k
  proof
    assume "\<exists>j < k. preprocessImage test_browser (?input ! j) = Unsettled"
    then obtain j where j: "j < k"
      and u: "preprocessImage test_browser (?input ! j) = Unsettled" by blast
    from j that have "j = 0 \<or> j = 1" by linarith
    with u good bad show False by auto
  qed
  from job_outcome [OF d, of 0] job_outcome [OF d, of 1] job_outcome [OF d, of 2]
    good bad ocr n t c [of 0] c [of 1] c [of 2]
  have p: "status (last (handleFileUpload test_browser ?input) ! 0) = Completed \<and>
     numbers (last (handleFileUpload test_browser ?input) ! 0) = [''919876543210''] \<and>
     status (last (handleFileUpload test_browser ?input) ! 1) = Error \<and>
     error (last (handleFileUpload test_browser ?input) ! 1) = None \<and>
     status (last (handleFileUpload test_browser ?input) ! 2) = Completed"
    by (simp add: Let_def)
  from job_outcome [OF d', of 1] job_outcome [OF d', of 2] hang a b t
  have q: "status (last (handleFileUpload test_browser ?hangs) ! 1) = Processing \<and>
     status (last (handleFileUpload test_browser ?hangs) ! 2) = Pending"
    by (simp add: Let_def)
  from p q show ?thesis by simp
qed

end
